theory Spec2Isabelle
  imports Complex_Main "HOL-Library.Multiset"
begin

section \<open>Strings\<close>

text \<open>
  A Python \<open>str\<close> is a sequence of Unicode code points, so a string is a list of code
  points (natural numbers); \<open>ascii\<close> turns a literal into one.  Floats (the strengths
  and a fractional \<open>num_aug\<close>) are read as the exact rationals they denote: the
  rounding of a float product or quotient (\<open>int(0.29 * 100)\<close> is 28 in Python, and
  \<open>n / 4\<close> is inexact for an integer beyond \<open>2^53\<close>) and the overflow of a huge
  integer are outside the model.
\<close>

type_synonym ustr = "nat list"

definition ascii :: "string \<Rightarrow> ustr" where
  "ascii s = map of_char s"

text \<open>\<open>__VALID_CHARS = string.ascii_lowercase + " "\<close> (eda.py, line 17).\<close>

definition VALID_CHARS :: ustr where
  "VALID_CHARS = [97 ..< 123] @ [32]"

text \<open>\<open>str.replace(old, new)\<close>: the occurrences of \<open>old\<close> are replaced from left to
  right without overlap; with an empty \<open>old\<close>, \<open>new\<close> goes before every character and
  at the end.\<close>

fun replace_from :: "ustr \<Rightarrow> ustr \<Rightarrow> nat \<Rightarrow> ustr \<Rightarrow> ustr" where
  "replace_from old new k [] = []"
| "replace_from old new k (c # cs) =
     (if 0 < k then replace_from old new (k - 1) cs
      else if take (length old) (c # cs) = old
      then new @ replace_from old new (length old - 1) cs
      else c # replace_from old new 0 cs)"

definition replace :: "ustr \<Rightarrow> ustr \<Rightarrow> ustr \<Rightarrow> ustr" where
  "replace old new s =
     (if old = [] then new @ concat (map (\<lambda>c. c # new) s) else replace_from old new 0 s)"

text \<open>\<open>str.lower()\<close>.  On ASCII it maps \<open>A..Z\<close> to \<open>a..z\<close>.  The lowercase of a
  code point beyond ASCII comes from the Unicode tables, which are not part of the
  repository: they are the parameter \<open>ulower\<close> (a code point may lower to several,
  some of them ASCII letters).\<close>

definition lower_cp :: "(nat \<Rightarrow> ustr) \<Rightarrow> nat \<Rightarrow> ustr" where
  "lower_cp ulower c =
     (if c < 128 then (if 65 \<le> c \<and> c \<le> 90 then [c + 32] else [c]) else ulower c)"

definition lower :: "(nat \<Rightarrow> ustr) \<Rightarrow> ustr \<Rightarrow> ustr" where
  "lower ulower s = concat (map (lower_cp ulower) s)"

text \<open>\<open>re.sub(" +", " ", s)\<close>: every maximal run of spaces becomes one space.\<close>

fun sub_spaces :: "ustr \<Rightarrow> ustr" where
  "sub_spaces [] = []"
| "sub_spaces [c] = [c]"
| "sub_spaces (c # d # cs) =
     (if c = 32 \<and> d = 32 then sub_spaces (d # cs) else c # sub_spaces (d # cs))"

text \<open>\<open>str.strip()\<close> removes the leading and trailing white space, which for Python
  is the code points below.\<close>

definition isspace :: "nat \<Rightarrow> bool" where
  "isspace c \<longleftrightarrow> c \<in> set ([9 ..< 14] @ [28 ..< 33] @ [133, 160, 5760] @ [8192 ..< 8203]
                        @ [8232, 8233, 8239, 8287, 12288])"

definition strip :: "ustr \<Rightarrow> ustr" where
  "strip s = rev (dropWhile isspace (rev (dropWhile isspace s)))"

text \<open>\<open>s.split(" ")\<close> and \<open>" ".join(ws)\<close>.\<close>

fun split :: "nat \<Rightarrow> ustr \<Rightarrow> ustr list" where
  "split sep [] = [[]]"
| "split sep (c # cs) =
     (if c = sep then [] # split sep cs
      else (case split sep cs of [] \<Rightarrow> [[c]] | w # ws \<Rightarrow> (c # w) # ws))"

fun join :: "nat \<Rightarrow> ustr list \<Rightarrow> ustr" where
  "join sep [] = []"
| "join sep [w] = w"
| "join sep (w # v # ws) = w @ sep # join sep (v # ws)"

section \<open>Text normalizer\<close>

text \<open>\<open>get_only_chars\<close> (eda.py, lines 25-47).  The first replaced string is the three
  code points U+00E2, U+20AC, U+2122.\<close>

definition get_only_chars :: "(nat \<Rightarrow> ustr) \<Rightarrow> ustr \<Rightarrow> ustr" where
  "get_only_chars ulower line =
     (let line1 = lower ulower
                    (replace [10] [32] (replace [9] [32] (replace [45] [32]
                       (replace [39] [] (replace [226, 8364, 8482] [] line)))));
          clean_line = map (\<lambda>char. if char \<in> set VALID_CHARS then char else 32) line1
      in strip (sub_spaces clean_line))"

section \<open>Random source and errors\<close>

text \<open>
  The module-level generator is threaded explicitly: \<open>rnd\<close> is the sequence of raw
  outcomes of the successive calls of the \<open>random\<close> module and the state is the number
  of calls made so far.  A call maps its raw outcome into its range, so every result
  the real generator can give is given by some \<open>rnd\<close>.  A raised exception is a value.
\<close>

type_synonym draws = "nat \<Rightarrow> nat"

datatype error = ValueError | IndexError | ZeroDivisionError | LookupError

text \<open>\<open>random.randint(0, n - 1)\<close>: \<open>ValueError\<close> on the empty range.\<close>

definition randint0 :: "draws \<Rightarrow> nat \<Rightarrow> nat \<Rightarrow> error + nat \<times> nat" where
  "randint0 rnd n i = (if n = 0 then Inl ValueError else Inr (rnd i mod n, Suc i))"

text \<open>\<open>random.uniform(0, 1)\<close>: a multiple of \<open>2^-53\<close> in \<open>[0, 1)\<close>.\<close>

definition uniform01 :: "draws \<Rightarrow> nat \<Rightarrow> rat" where
  "uniform01 rnd i = of_nat (rnd i mod 2 ^ 53) / 2 ^ 53"

text \<open>\<open>random.shuffle(x)\<close>: for \<open>i\<close> from \<open>len(x) - 1\<close> down to 1, swap \<open>x[i]\<close> with
  \<open>x[j]\<close> for a random \<open>j \<le> i\<close>.\<close>

fun shuffle_from :: "draws \<Rightarrow> nat \<Rightarrow> 'a list \<Rightarrow> nat \<Rightarrow> 'a list \<times> nat" where
  "shuffle_from rnd 0 x i = (x, i)"
| "shuffle_from rnd (Suc k) x i =
     (let j = rnd i mod (Suc k + 1)
      in shuffle_from rnd k (x[Suc k := x ! j, j := x ! Suc k]) (Suc i))"

definition shuffle :: "draws \<Rightarrow> 'a list \<Rightarrow> nat \<Rightarrow> 'a list \<times> nat" where
  "shuffle rnd x i = shuffle_from rnd (length x - 1) x i"

text \<open>\<open>int(x)\<close> truncates towards zero; \<open>x % m\<close> takes the sign of \<open>m\<close>.\<close>

definition py_int :: "rat \<Rightarrow> int" where
  "py_int x = (if 0 \<le> x then \<lfloor>x\<rfloor> else \<lceil>x\<rceil>)"

definition py_mod :: "rat \<Rightarrow> rat \<Rightarrow> rat" where
  "py_mod x m = x - of_int \<lfloor>x / m\<rfloor> * m"

section \<open>Random deletion\<close>

text \<open>\<open>random_deletion\<close> (eda.py, lines 120-143).  The comprehension draws once per
  word, in order.\<close>

definition random_deletion ::
  "draws \<Rightarrow> ustr list \<Rightarrow> rat \<Rightarrow> nat \<Rightarrow> error + ustr list \<times> nat" where
  "random_deletion rnd words probability i =
     (if length words = 1 then Inr (words, i)
      else
        let new_words = map fst (filter (\<lambda>(word, k). probability < uniform01 rnd k)
                                   (zip words [i ..< i + length words]));
            j = i + length words
        in if length new_words = 0
           then (case randint0 rnd (length words) j of
                   Inl e \<Rightarrow> Inl e
                 | Inr (rand_int, j') \<Rightarrow> Inr ([words ! rand_int], j'))
           else Inr (new_words, j))"

section \<open>Random swap\<close>

text \<open>The \<open>while\<close> loop of \<open>swap_word\<close> (eda.py, lines 182-186): \<open>None\<close> is the early
  return of the unchanged list once the counter exceeds 3.\<close>

function swap_loop ::
  "draws \<Rightarrow> nat \<Rightarrow> nat \<Rightarrow> nat \<Rightarrow> nat \<Rightarrow> error + nat option \<times> nat" where
  "swap_loop rnd len random_idx_1 counter i =
     (case randint0 rnd len i of
        Inl e \<Rightarrow> Inl e
      | Inr (random_idx_2, j) \<Rightarrow>
          if 3 < counter + 1 then Inr (None, j)
          else if random_idx_2 = random_idx_1
          then swap_loop rnd len random_idx_1 (counter + 1) j
          else Inr (Some random_idx_2, j))"
  by pat_completeness auto
termination
  by (relation "measure (\<lambda>(rnd, len, idx, counter, i). 4 - counter)") auto

text \<open>\<open>swap_word\<close> (eda.py, lines 169-191).\<close>

definition swap_word :: "draws \<Rightarrow> ustr list \<Rightarrow> nat \<Rightarrow> error + ustr list \<times> nat" where
  "swap_word rnd new_words i =
     (case randint0 rnd (length new_words) i of
        Inl e \<Rightarrow> Inl e
      | Inr (random_idx_1, j) \<Rightarrow>
          (case swap_loop rnd (length new_words) random_idx_1 0 j of
             Inl e \<Rightarrow> Inl e
           | Inr (None, j') \<Rightarrow> Inr (new_words, j')
           | Inr (Some random_idx_2, j') \<Rightarrow>
               Inr (new_words[random_idx_1 := new_words ! random_idx_2,
                              random_idx_2 := new_words ! random_idx_1], j')))"

text \<open>\<open>random_swap\<close> (eda.py, lines 152-166).\<close>

fun random_swap :: "draws \<Rightarrow> ustr list \<Rightarrow> nat \<Rightarrow> nat \<Rightarrow> error + ustr list \<times> nat" where
  "random_swap rnd new_words 0 i = Inr (new_words, i)"
| "random_swap rnd new_words (Suc n) i =
     (case swap_word rnd new_words i of
        Inl e \<Rightarrow> Inl e
      | Inr (new_words', j) \<Rightarrow> random_swap rnd new_words' n j)"

section \<open>Lexical resource\<close>

text \<open>
  WordNet, the stop-word corpus and the Unicode tables are libraries outside the
  repository; they are the fields of a parameter.  \<open>stopwords_words language\<close> is
  \<open>stopwords.words(Lang(language).name.lower())\<close> and \<open>lemma_names word language\<close>
  lists \<open>lemma.name()\<close> over the lemmas of the synsets of the word, in the order of the
  two loops; both raise on a language they do not know.
\<close>

record lexicon =
  ulower :: "nat \<Rightarrow> ustr"
  stopwords_words :: "ustr \<Rightarrow> error + ustr list"
  lemma_names :: "ustr \<Rightarrow> ustr \<Rightarrow> error + ustr list"

text \<open>\<open>get_synonyms\<close> (eda.py, lines 92-111).  A Python set has no specified order
  of iteration (it depends on the hashes); the model fixes one order, that of first
  insertion, so a statement about which synonym is taken holds of the model only.\<close>

definition get_synonyms :: "lexicon \<Rightarrow> ustr \<Rightarrow> ustr \<Rightarrow> error + ustr list" where
  "get_synonyms lx word language =
     (case lemma_names lx word language of
        Inl e \<Rightarrow> Inl e
      | Inr names \<Rightarrow>
          Inr (removeAll word (rev (remdups (rev (map (\<lambda>name.
                 filter (\<lambda>char. char \<in> set VALID_CHARS)
                   (lower (ulower lx) (replace [45] [32] (replace [95] [32] name))))
                 names))))))"

section \<open>Synonym replacement\<close>

text \<open>The \<open>for\<close> loop of \<open>synonym_replacement\<close> (eda.py, lines 74-83).\<close>

fun replace_loop ::
  "lexicon \<Rightarrow> draws \<Rightarrow> ustr \<Rightarrow> int \<Rightarrow> ustr list \<Rightarrow> ustr list \<Rightarrow> int \<Rightarrow> nat
     \<Rightarrow> error + ustr list \<times> nat" where
  "replace_loop lx rnd language n [] new_words num_replaced i = Inr (new_words, i)"
| "replace_loop lx rnd language n (random_word # rest) new_words num_replaced i =
     (case get_synonyms lx random_word language of
        Inl e \<Rightarrow> Inl e
      | Inr synonyms \<Rightarrow>
          if 1 \<le> length synonyms
          then (case randint0 rnd (length synonyms) i of
                  Inl e \<Rightarrow> Inl e
                | Inr (k, j) \<Rightarrow>
                    let new_words' =
                          map (\<lambda>word. if word = random_word then synonyms ! k else word)
                            new_words
                    in if n \<le> num_replaced + 1 then Inr (new_words', j)
                       else replace_loop lx rnd language n rest new_words'
                              (num_replaced + 1) j)
          else if n \<le> num_replaced then Inr (new_words, i)
          else replace_loop lx rnd language n rest new_words num_replaced i)"

text \<open>\<open>synonym_replacement\<close> (eda.py, lines 56-89).  The order of
  \<open>list(set(...))\<close> before the shuffle is again fixed by the model (\<open>remdups\<close>).\<close>

definition synonym_replacement ::
  "lexicon \<Rightarrow> draws \<Rightarrow> ustr list \<Rightarrow> int \<Rightarrow> ustr \<Rightarrow> nat \<Rightarrow> error + ustr list \<times> nat" where
  "synonym_replacement lx rnd words n language i =
     (case stopwords_words lx language of
        Inl e \<Rightarrow> Inl e
      | Inr stop_words \<Rightarrow>
          (case shuffle rnd (remdups (filter (\<lambda>word. word \<notin> set stop_words) words)) i of
             (random_word_list, j) \<Rightarrow>
               (case replace_loop lx rnd language n random_word_list words 0 j of
                  Inl e \<Rightarrow> Inl e
                | Inr (new_words, j') \<Rightarrow> Inr (split 32 (join 32 new_words), j'))))"

section \<open>Random insertion\<close>

text \<open>The \<open>while\<close> loop of \<open>add_word\<close> (eda.py, lines 235-240): \<open>None\<close> is the plain
  \<open>return\<close> at the tenth attempt.\<close>

function add_loop ::
  "lexicon \<Rightarrow> draws \<Rightarrow> ustr \<Rightarrow> ustr list \<Rightarrow> nat \<Rightarrow> nat
     \<Rightarrow> error + ustr list option \<times> nat" where
  "add_loop lx rnd language new_words counter i =
     (case randint0 rnd (length new_words) i of
        Inl e \<Rightarrow> Inl e
      | Inr (k, j) \<Rightarrow>
          (case get_synonyms lx (new_words ! k) language of
             Inl e \<Rightarrow> Inl e
           | Inr synonyms \<Rightarrow>
               if 10 \<le> counter + 1 then Inr (None, j)
               else if length synonyms < 1
               then add_loop lx rnd language new_words (counter + 1) j
               else Inr (Some synonyms, j)))"
  by pat_completeness auto
termination
  by (relation "measure (\<lambda>(lx, rnd, language, new_words, counter, i). 10 - counter)") auto

text \<open>\<open>add_word\<close> (eda.py, lines 222-243); \<open>list.insert(k, x)\<close> puts \<open>x\<close> before
  position \<open>k\<close>.\<close>

definition add_word ::
  "lexicon \<Rightarrow> draws \<Rightarrow> ustr list \<Rightarrow> ustr \<Rightarrow> nat \<Rightarrow> error + ustr list \<times> nat" where
  "add_word lx rnd new_words language i =
     (case add_loop lx rnd language new_words 0 i of
        Inl e \<Rightarrow> Inl e
      | Inr (None, j) \<Rightarrow> Inr (new_words, j)
      | Inr (Some synonyms, j) \<Rightarrow>
          (case randint0 rnd (length new_words) j of
             Inl e \<Rightarrow> Inl e
           | Inr (random_idx, j') \<Rightarrow>
               Inr (take random_idx new_words @ hd synonyms # drop random_idx new_words,
                    j')))"

text \<open>\<open>random_insertion\<close> (eda.py, lines 200-219).\<close>

fun random_insertion ::
  "lexicon \<Rightarrow> draws \<Rightarrow> ustr list \<Rightarrow> nat \<Rightarrow> ustr \<Rightarrow> nat \<Rightarrow> error + ustr list \<times> nat" where
  "random_insertion lx rnd new_words 0 language i = Inr (new_words, i)"
| "random_insertion lx rnd new_words (Suc n) language i =
     (case add_word lx rnd new_words language i of
        Inl e \<Rightarrow> Inl e
      | Inr (new_words', j) \<Rightarrow> random_insertion lx rnd new_words' n language j)"

section \<open>Allocation policy\<close>

text \<open>The remainder loop of \<open>get_num_per_technique\<close> (eda.py, lines 276-280).  It
  has no bound on its iterations: not returning is the value \<open>None\<close>.\<close>

partial_function (option) remainder_loop ::
  "draws \<Rightarrow> rat list \<Rightarrow> int list \<Rightarrow> int \<Rightarrow> nat \<Rightarrow> (int list \<times> nat) option" where
  "remainder_loop rnd flags num_new_per_technique remainder i =
     (if 0 < remainder
      then (if flags ! (rnd i mod 4) \<noteq> 0
            then remainder_loop rnd flags
                   (num_new_per_technique[rnd i mod 4 :=
                      num_new_per_technique ! (rnd i mod 4) + 1])
                   (remainder - 1) (Suc i)
            else remainder_loop rnd flags num_new_per_technique remainder (Suc i))
      else Some (num_new_per_technique, i))"

declare remainder_loop.simps [code]

text \<open>\<open>get_num_per_technique\<close> (eda.py, lines 251-282).  The comprehension reads
  \<open>flags[0..3]\<close>, so a non-empty list shorter than four raises \<open>IndexError\<close>.\<close>

definition get_num_per_technique ::
  "draws \<Rightarrow> rat \<Rightarrow> rat list \<Rightarrow> nat \<Rightarrow> (error + int list \<times> nat) option" where
  "get_num_per_technique rnd num_aug flags0 i =
     (let num_methods = 4;
          flags = (if flags0 = [] then replicate num_methods 1 else flags0)
      in if length flags < num_methods then Some (Inl IndexError)
         else map_option Inr
                (remainder_loop rnd flags
                   (map (\<lambda>pos. if flags ! pos \<noteq> 0 then py_int (num_aug / of_nat num_methods)
                                else 0) [0 ..< num_methods])
                   \<lceil>py_mod num_aug (of_nat num_methods)\<rceil> i))"

section \<open>Augmentation orchestrator\<close>

text \<open>One \<open>for _ in range(count)\<close> loop of \<open>eda\<close> (eda.py, lines 331-333, 338-340,
  345-347, 351-353): each round runs the operator and appends the joined words.\<close>

fun augment_loop ::
  "(nat \<Rightarrow> error + ustr list \<times> nat) \<Rightarrow> nat \<Rightarrow> ustr list \<Rightarrow> nat \<Rightarrow> error + ustr list \<times> nat"
  where
  "augment_loop operator 0 augmented_sentences i = Inr (augmented_sentences, i)"
| "augment_loop operator (Suc cnt) augmented_sentences i =
     (case operator i of
        Inl e \<Rightarrow> Inl e
      | Inr (a_words, j) \<Rightarrow>
          augment_loop operator cnt (augmented_sentences @ [join 32 a_words]) j)"

text \<open>Lines 326-353 of \<open>eda\<close>: the four operators in turn, each behind its
  \<open>alpha > 0\<close> test.\<close>

definition eda_operators ::
  "lexicon \<Rightarrow> draws \<Rightarrow> ustr list \<Rightarrow> ustr \<Rightarrow> int list \<Rightarrow> rat \<Rightarrow> rat \<Rightarrow> rat \<Rightarrow> rat \<Rightarrow> nat
     \<Rightarrow> error + ustr list \<times> nat" where
  "eda_operators lx rnd words language num_new_per_technique
       alpha_sr alpha_ri alpha_rs alpha_rd i =
     (let num_words = length words in
      case (if 0 < alpha_sr
            then augment_loop
                   (synonym_replacement lx rnd words
                      (max 1 (py_int (alpha_sr * of_nat num_words))) language)
                   (nat (num_new_per_technique ! 0)) [] i
            else Inr ([], i)) of
        Inl e \<Rightarrow> Inl e
      | Inr (aug1, i1) \<Rightarrow>
     (case (if 0 < alpha_ri
            then augment_loop
                   (\<lambda>k. random_insertion lx rnd words
                      (nat (max 1 (py_int (alpha_ri * of_nat num_words)))) language k)
                   (nat (num_new_per_technique ! 1)) aug1 i1
            else Inr (aug1, i1)) of
        Inl e \<Rightarrow> Inl e
      | Inr (aug2, i2) \<Rightarrow>
     (case (if 0 < alpha_rs
            then augment_loop
                   (random_swap rnd words
                      (nat (max 1 (py_int (alpha_rs * of_nat num_words)))))
                   (nat (num_new_per_technique ! 2)) aug2 i2
            else Inr (aug2, i2)) of
        Inl e \<Rightarrow> Inl e
      | Inr (aug3, i3) \<Rightarrow>
          (if 0 < alpha_rd
           then augment_loop (random_deletion rnd words alpha_rd)
                  (nat (num_new_per_technique ! 3)) aug3 i3
           else Inr (aug3, i3)))))"

text \<open>Lines 356-380 of \<open>eda\<close>: clean-up, optional shuffle, trimming, and the
  original sentence in front.  The variable \<open>sentence\<close> of the clean-up comprehension
  is local to it, so the returned \<open>sentence\<close> is the argument.  Dividing by the length
  of an empty list raises \<open>ZeroDivisionError\<close>.\<close>

definition eda_finish ::
  "lexicon \<Rightarrow> draws \<Rightarrow> ustr \<Rightarrow> rat \<Rightarrow> bool \<Rightarrow> ustr list \<Rightarrow> nat \<Rightarrow> error + ustr list" where
  "eda_finish lx rnd sentence num_aug randomize augmented_sentences i =
     (let cleaned = map (get_only_chars (ulower lx)) augmented_sentences;
          (shuffled, j) = (if randomize then shuffle rnd cleaned i else (cleaned, i))
      in if 1 \<le> num_aug \<and> py_int num_aug < int (length shuffled)
         then Inr ([sentence] @ take (nat (py_int num_aug)) shuffled)
         else if 0 < num_aug
         then (if length shuffled = 0 then Inl ZeroDivisionError
               else Inr ([sentence] @
                      map fst (filter (\<lambda>(aug_sentence, k).
                                         uniform01 rnd k < num_aug / of_nat (length shuffled))
                                 (zip shuffled [j ..< j + length shuffled]))))
         else Inr ([sentence] @ shuffled))"

text \<open>\<open>eda\<close> (eda.py, lines 285-380); \<open>i\<close> is the state of the generator at the
  call.\<close>

definition eda ::
  "lexicon \<Rightarrow> draws \<Rightarrow> ustr \<Rightarrow> ustr \<Rightarrow> rat \<Rightarrow> rat \<Rightarrow> rat \<Rightarrow> rat \<Rightarrow> rat \<Rightarrow> bool \<Rightarrow> nat
     \<Rightarrow> (error + ustr list) option" where
  "eda lx rnd sentence language num_aug alpha_sr alpha_ri alpha_rs alpha_rd randomize i =
     (let clean_sentence = get_only_chars (ulower lx) sentence;
          words = filter (\<lambda>word. word \<noteq> []) (split 32 clean_sentence);
          num_words = length words
      in if num_words = 0 then Some (Inr [sentence])
         else (case get_num_per_technique rnd num_aug
                      [alpha_sr, alpha_ri, alpha_rs, alpha_rd] i of
                 None \<Rightarrow> None
               | Some (Inl e) \<Rightarrow> Some (Inl e)
               | Some (Inr (num_new_per_technique, i0)) \<Rightarrow>
                   (case eda_operators lx rnd words language num_new_per_technique
                           alpha_sr alpha_ri alpha_rs alpha_rd i0 of
                      Inl e \<Rightarrow> Some (Inl e)
                    | Inr (augmented_sentences, i1) \<Rightarrow>
                        Some (eda_finish lx rnd sentence num_aug randomize
                                augmented_sentences i1))))"

section \<open>Auxiliary notions for the statements\<close>

text \<open>A string without two spaces in a row, and a string in normal form: only
  valid characters, no double space, no space at either end.\<close>

fun no_double :: "ustr \<Rightarrow> bool" where
  "no_double [] = True"
| "no_double [c] = True"
| "no_double (c # d # cs) = (\<not> (c = 32 \<and> d = 32) \<and> no_double (d # cs))"

definition normal :: "ustr \<Rightarrow> bool" where
  "normal s \<longleftrightarrow> set s \<subseteq> set VALID_CHARS \<and> no_double s \<and> strip s = s"

text \<open>Fixed inputs for the concrete evaluations below: a generator whose raw
  outcomes are all equal, one whose outcomes count up from 0, and a lexical resource
  that knows no word.\<close>

definition const_draws :: "nat \<Rightarrow> draws" where
  "const_draws c i = c"

definition step_draws :: draws where
  "step_draws i = i"

definition empty_lexicon :: lexicon where
  "empty_lexicon =
     \<lparr>ulower = (\<lambda>c. [c]), stopwords_words = (\<lambda>language. Inr []),
      lemma_names = (\<lambda>word language. Inr [])\<rparr>"

text \<open>Among the \<open>k\<close> draws from state \<open>i\<close> on: how many pick an enabled position,
  and how many pick position \<open>pos\<close>.\<close>

definition enabled_draws :: "draws \<Rightarrow> rat list \<Rightarrow> nat \<Rightarrow> nat \<Rightarrow> nat" where
  "enabled_draws rnd flags i k =
     length (filter (\<lambda>j. flags ! (rnd j mod 4) \<noteq> 0) [i ..< i + k])"

definition drawn_at :: "draws \<Rightarrow> nat \<Rightarrow> nat \<Rightarrow> nat \<Rightarrow> nat" where
  "drawn_at rnd pos i k = length (filter (\<lambda>j. rnd j mod 4 = pos) [i ..< i + k])"


text \<open>The token sequence of a sentence, as \<open>eda\<close> computes it (eda.py, lines
  313-316), and a token made of lowercase letters only.\<close>

definition tokens :: "(nat \<Rightarrow> ustr) \<Rightarrow> ustr \<Rightarrow> ustr list" where
  "tokens ul sentence =
     filter (\<lambda>word. word \<noteq> []) (split 32 (get_only_chars ul sentence))"

definition is_word :: "ustr \<Rightarrow> bool" where
  "is_word w \<longleftrightarrow> w \<noteq> [] \<and> list_all (\<lambda>c. 97 \<le> c \<and> c < 123) w"

text \<open>The sentence of the swap-only scenario and its five tokens.\<close>

definition fox :: ustr where
  "fox = ascii ''The quick brown fox jumps''"

definition fox_words :: "ustr list" where
  "fox_words = map ascii [''the'', ''quick'', ''brown'', ''fox'', ''jumps'']"

section \<open>The normalizer is idempotent\<close>

lemma valid_char_iff: "c \<in> set VALID_CHARS \<longleftrightarrow> (97 \<le> c \<and> c < 123) \<or> c = 32"
  unfolding VALID_CHARS_def by (simp only: set_append set_upt) auto

lemma replace_from_absent:
  "old \<noteq> [] \<Longrightarrow> hd old \<notin> set s \<Longrightarrow> replace_from old new 0 s = s"
proof (induction s)
  case Nil
  then show ?case by simp
next
  case (Cons c cs)
  have "take (length old) (c # cs) \<noteq> old"
  proof
    assume "take (length old) (c # cs) = old"
    then have "hd old = c" using Cons.prems(1) by (cases old) auto
    with Cons.prems(2) show False by simp
  qed
  with Cons show ?case by simp
qed

lemma replace_absent: "old \<noteq> [] \<Longrightarrow> hd old \<notin> set s \<Longrightarrow> replace old new s = s"
  by (simp add: replace_def replace_from_absent)

lemma lower_valid: "set s \<subseteq> set VALID_CHARS \<Longrightarrow> lower ul s = s"
  by (induction s) (auto simp: lower_def lower_cp_def valid_char_iff)

lemma sub_spaces_hd: "\<exists>r. sub_spaces (d # cs) = d # r"
  by (induction cs arbitrary: d) auto

lemma set_sub_spaces: "set (sub_spaces s) \<subseteq> set s"
  by (induction s rule: sub_spaces.induct) auto

lemma no_double_sub_spaces: "no_double (sub_spaces s)"
proof (induction s rule: sub_spaces.induct)
  case (3 c d cs)
  obtain r where r: "sub_spaces (d # cs) = d # r" using sub_spaces_hd by blast
  with 3 show ?case by auto
qed simp_all

lemma sub_spaces_no_double: "no_double s \<Longrightarrow> sub_spaces s = s"
  by (induction s rule: sub_spaces.induct) auto

lemma no_double_append: "no_double (xs @ ys) \<Longrightarrow> no_double xs \<and> no_double ys"
proof (induction xs rule: no_double.induct)
  case 1
  then show ?case by simp
next
  case (2 c)
  then show ?case by (cases ys) auto
next
  case (3 c d cs)
  then show ?case by auto
qed

lemma no_double_strip: "no_double s \<Longrightarrow> no_double (strip s)"
proof -
  assume nd: "no_double s"
  let ?a = "dropWhile isspace s"
  have "s = takeWhile isspace s @ ?a" by simp
  with nd have a: "no_double ?a" using no_double_append by metis
  have "rev ?a = takeWhile isspace (rev ?a) @ dropWhile isspace (rev ?a)" by simp
  then have "?a = rev (dropWhile isspace (rev ?a)) @ rev (takeWhile isspace (rev ?a))"
    by (metis rev_append rev_rev_ident)
  with a have "no_double (rev (dropWhile isspace (rev ?a)))" using no_double_append by metis
  then show ?thesis by (simp add: strip_def)
qed

lemma strip_front:
  assumes "a = [] \<or> \<not> isspace (hd a)"
  shows "dropWhile isspace (rev (dropWhile isspace (rev a))) = rev (dropWhile isspace (rev a))"
proof (cases a)
  case Nil
  then show ?thesis by simp
next
  case (Cons x xs)
  with assms have x: "\<not> isspace x" by simp
  have "dropWhile isspace (rev xs @ [x]) = dropWhile isspace (rev xs) @ [x]
        \<or> dropWhile isspace (rev xs @ [x]) = [x]"
    using x by (simp add: dropWhile_append)
  then obtain r where "dropWhile isspace (rev xs @ [x]) = r @ [x]"
    by (metis append_Nil)
  then have "rev (dropWhile isspace (rev a)) = x # rev r" unfolding Cons by simp
  then show ?thesis using x by simp
qed

lemma strip_idem: "strip (strip s) = strip s"
proof -
  let ?a = "dropWhile isspace s"
  let ?u = "rev (dropWhile isspace (rev ?a))"
  have "?a = [] \<or> \<not> isspace (hd ?a)" using hd_dropWhile by blast
  then have front: "dropWhile isspace ?u = ?u" by (rule strip_front)
  have rear: "dropWhile isspace (rev ?u) = rev ?u"
    by (simp add: dropWhile_idem)
  have "strip ?u = ?u" unfolding strip_def front rear by simp
  then show ?thesis by (simp add: strip_def[of s])
qed

lemma set_strip: "set (strip s) \<subseteq> set s"
proof
  fix x assume "x \<in> set (strip s)"
  then have "x \<in> set (dropWhile isspace (rev (dropWhile isspace s)))" by (simp add: strip_def)
  then have "x \<in> set (rev (dropWhile isspace s))" by (rule set_dropWhileD)
  then have "x \<in> set (dropWhile isspace s)" by simp
  then show "x \<in> set s" by (rule set_dropWhileD)
qed

lemma normal_get_only_chars: "normal (get_only_chars ul x)"
proof -
  define l where "l = lower ul
                    (replace [10] [32] (replace [9] [32] (replace [45] [32]
                       (replace [39] [] (replace [226, 8364, 8482] [] x)))))"
  define cl where "cl = map (\<lambda>char. if char \<in> set VALID_CHARS then char else 32) l"
  have g: "get_only_chars ul x = strip (sub_spaces cl)"
    by (simp add: get_only_chars_def l_def cl_def)
  have "set cl \<subseteq> set VALID_CHARS" by (auto simp: cl_def valid_char_iff)
  then have "set (strip (sub_spaces cl)) \<subseteq> set VALID_CHARS"
    using set_strip set_sub_spaces by blast
  moreover have "no_double (strip (sub_spaces cl))"
    by (simp add: no_double_strip no_double_sub_spaces)
  ultimately show ?thesis by (simp add: normal_def g strip_idem)
qed

lemma get_only_chars_normal:
  assumes "normal s" shows "get_only_chars ul s = s"
proof -
  from assms have v: "set s \<subseteq> set VALID_CHARS" and nd: "no_double s" and st: "strip s = s"
    by (simp_all add: normal_def)
  have absent: "226 \<notin> set s" "39 \<notin> set s" "45 \<notin> set s" "9 \<notin> set s" "10 \<notin> set s"
    using v by (auto simp: valid_char_iff)
  have r: "replace [10] [32] (replace [9] [32] (replace [45] [32]
             (replace [39] [] (replace [226, 8364, 8482] [] s)))) = s"
    using absent by (simp add: replace_absent)
  have m: "map (\<lambda>char. if char \<in> set VALID_CHARS then char else 32) s = s"
    using v by (induction s) auto
  show ?thesis
    by (simp add: get_only_chars_def r lower_valid[OF v] m sub_spaces_no_double[OF nd] st)
qed

text \<open>
  Claim C7.  The normalizer is idempotent: normalising a normalised string changes
  nothing, for every string and whatever the Unicode lowercase table is.
\<close>

theorem get_only_chars_idempotent:
  "get_only_chars ul (get_only_chars ul x) = get_only_chars ul x"
  by (rule get_only_chars_normal) (rule normal_get_only_chars)

section \<open>Random swap permutes\<close>

lemma swap_loop_ok:
  "0 < len \<Longrightarrow> \<exists>r j. swap_loop rnd len idx counter i = Inr (r, j)
                     \<and> (\<forall>idx2. r = Some idx2 \<longrightarrow> idx2 < len)"
proof (induction rnd len idx counter i rule: swap_loop.induct)
  case (1 rnd len random_idx_1 counter i)
  show ?case
  proof (cases "3 < counter + 1")
    case True
    with "1.prems" show ?thesis
      by (subst swap_loop.simps) (simp add: randint0_def)
  next
    case False
    show ?thesis
    proof (cases "rnd i mod len = random_idx_1")
      case True
      have r: "randint0 rnd len i = Inr (rnd i mod len, Suc i)"
        using "1.prems" by (simp add: randint0_def)
      from "1.IH"[OF r refl False True "1.prems"] show ?thesis
        using False True "1.prems" by (subst swap_loop.simps) (simp add: randint0_def)
    next
      case neq: False
      with False "1.prems" show ?thesis
        by (subst swap_loop.simps) (simp add: randint0_def)
    qed
  qed
qed

lemma swap_word_ok:
  assumes "new_words \<noteq> []"
  shows "\<exists>ws j. swap_word rnd new_words i = Inr (ws, j) \<and> mset ws = mset new_words"
proof -
  let ?n = "length new_words"
  from assms have n: "0 < ?n" by simp
  then have r: "randint0 rnd ?n i = Inr (rnd i mod ?n, Suc i)" by (simp add: randint0_def)
  have i1: "rnd i mod ?n < ?n" using n by simp
  from swap_loop_ok[OF n] obtain r j where
    l: "swap_loop rnd ?n (rnd i mod ?n) 0 (Suc i) = Inr (r, j)"
    and b: "\<forall>idx2. r = Some idx2 \<longrightarrow> idx2 < ?n" by blast
  show ?thesis
  proof (cases r)
    case None
    with r l show ?thesis by (simp add: swap_word_def)
  next
    case (Some idx2)
    with b have "idx2 < ?n" by simp
    then have "mset (new_words[rnd i mod ?n := new_words ! idx2,
                              idx2 := new_words ! (rnd i mod ?n)]) = mset new_words"
      using i1 by (simp add: mset_swap)
    with Some r l show ?thesis by (simp add: swap_word_def)
  qed
qed

lemma random_swap_ok:
  "new_words \<noteq> [] \<Longrightarrow>
     \<exists>ws j. random_swap rnd new_words n i = Inr (ws, j) \<and> mset ws = mset new_words"
proof (induction n arbitrary: new_words i)
  case 0
  then show ?case by simp
next
  case (Suc n)
  from swap_word_ok[OF Suc.prems] obtain ws j where
    s: "swap_word rnd new_words i = Inr (ws, j)" and m: "mset ws = mset new_words" by blast
  from m Suc.prems have "ws \<noteq> []" by auto
  from Suc.IH[OF this] obtain ws' j' where
    "random_swap rnd ws n j = Inr (ws', j')" "mset ws' = mset ws" by blast
  with s m show ?case by simp
qed

text \<open>
  Claim C5, amended.  For every non-empty token list and every \<open>n\<close>, and for the
  empty list when \<open>n = 0\<close>, \<open>random_swap\<close> returns a permutation of its input: same
  multiset of tokens, same length.
\<close>

theorem random_swap_permutation:
  assumes "words \<noteq> [] \<or> n = 0"
  shows "\<exists>new_words j. random_swap rnd words n i = Inr (new_words, j)
           \<and> mset new_words = mset words \<and> length new_words = length words"
proof (cases "words = []")
  case True
  with assms show ?thesis by simp
next
  case False
  from random_swap_ok[OF False] obtain ws j where
    r: "random_swap rnd words n i = Inr (ws, j)" and m: "mset ws = mset words" by blast
  from m have "length ws = length words" by (rule mset_eq_length)
  with r m show ?thesis by simp
qed

theorem random_swap_permutation_witness:
  "\<exists>new_words j. random_swap (const_draws 1) [ascii ''a'', ascii ''b''] 3 0 = Inr (new_words, j)
     \<and> mset new_words = mset [ascii ''a'', ascii ''b'']
     \<and> length new_words = length [ascii ''a'', ascii ''b'']"
  using random_swap_permutation[of "[ascii ''a'', ascii ''b'']" 3 "const_draws 1" 0] by simp

text \<open>
  Claim C5 as stated fails on the empty token list: with \<open>n = 1\<close> the first
  \<open>random.randint(0, -1)\<close> of \<open>swap_word\<close> raises \<open>ValueError\<close>, so no list is
  returned.
\<close>

theorem random_swap_empty_raises:
  "random_swap (const_draws 0) [] 1 0 = Inl ValueError"
  by (simp add: swap_word_def randint0_def)

text \<open>On the empty list every positive number of swaps raises, whatever the generator.\<close>

lemma random_swap_empty: "random_swap rnd [] (Suc n) i = Inl ValueError"
  by (simp add: swap_word_def randint0_def)

section \<open>Random deletion keeps at least one token\<close>

lemma kept_length: "length (map fst (filter P (zip ws ks))) \<le> length ws"
proof -
  have "length (filter P (zip ws ks)) \<le> length (zip ws ks)" by (rule length_filter_le)
  then show ?thesis by simp
qed

lemma kept_set: "set (map fst (filter P (zip ws ks))) \<subseteq> set ws"
  by (auto dest: set_zip_leftD)

lemma kept_empty:
  assumes "\<forall>k<length ws. \<not> Q (i + k)"
  shows "filter (\<lambda>(w, k). Q k) (zip ws [i ..< i + length ws]) = []"
proof -
  have "\<And>w k. (w, k) \<in> set (zip ws [i ..< i + length ws]) \<Longrightarrow> \<not> Q k"
  proof -
    fix w k assume "(w, k) \<in> set (zip ws [i ..< i + length ws])"
    then have "k \<in> set [i ..< i + length ws]" by (rule set_zip_rightD)
    then have "i \<le> k" "k - i < length ws" by auto
    with assms have "\<not> Q (i + (k - i))" by blast
    with \<open>i \<le> k\<close> show "\<not> Q k" by simp
  qed
  then show ?thesis by (auto simp: filter_empty_conv)
qed

text \<open>
  Claim C4.  On a non-empty token list \<open>random_deletion\<close> returns, for every
  probability, between one token and as many as the input has, all of them tokens of
  the input; a one-token list comes back unchanged; and when every draw drops its
  token the result is the single token at the index drawn next by
  \<open>random.randint(0, len(words) - 1)\<close>.
\<close>

theorem random_deletion_length:
  assumes "words \<noteq> []"
  shows "\<exists>new_words j. random_deletion rnd words p i = Inr (new_words, j)
           \<and> 1 \<le> length new_words \<and> length new_words \<le> length words
           \<and> set new_words \<subseteq> set words
           \<and> (length words = 1 \<longrightarrow> new_words = words)
           \<and> (length words \<noteq> 1 \<and> (\<forall>k<length words. \<not> p < uniform01 rnd (i + k))
                \<longrightarrow> new_words = [words ! (rnd (i + length words) mod length words)])"
proof (cases "length words = 1")
  case True
  then show ?thesis by (simp add: random_deletion_def)
next
  case False
  let ?kept = "map fst (filter (\<lambda>(word, k). p < uniform01 rnd k)
                          (zip words [i ..< i + length words]))"
  from assms have n: "0 < length words" by simp
  show ?thesis
  proof (cases "?kept = []")
    case True
    have "random_deletion rnd words p i =
            Inr ([words ! (rnd (i + length words) mod length words)], Suc (i + length words))"
      using False True n by (simp add: random_deletion_def randint0_def Let_def)
    moreover have "words ! (rnd (i + length words) mod length words) \<in> set words"
      using n by simp
    moreover have "1 \<le> length words" using n by (cases words) auto
    ultimately show ?thesis using False by simp
  next
    case kept: False
    have r: "random_deletion rnd words p i = Inr (?kept, i + length words)"
      using False kept by (simp add: random_deletion_def Let_def)
    have nd: "\<not> (\<forall>k<length words. \<not> p < uniform01 rnd (i + k))"
    proof
      assume "\<forall>k<length words. \<not> p < uniform01 rnd (i + k)"
      then have "filter (\<lambda>(word, k). p < uniform01 rnd k)
                   (zip words [i ..< i + length words]) = []"
        by (rule kept_empty)
      with kept show False by simp
    qed
    have l1: "1 \<le> length ?kept" using kept by (cases ?kept) auto
    have l2: "length ?kept \<le> length words" by (rule kept_length)
    have l3: "set ?kept \<subseteq> set words" by (rule kept_set)
    from r l1 l2 l3 False nd show ?thesis by blast
  qed
qed

theorem random_deletion_length_witness:
  "\<exists>new_words j.
      random_deletion (const_draws 0) [ascii ''a'', ascii ''b''] (1 / 2) 0 = Inr (new_words, j)
      \<and> 1 \<le> length new_words \<and> length new_words \<le> 2
      \<and> new_words = [ascii ''a'']"
proof -
  have d: "\<forall>k<length [ascii ''a'', ascii ''b'']. \<not> (1 / 2 :: rat) < uniform01 (const_draws 0) (0 + k)"
    by (simp add: uniform01_def const_draws_def)
  show ?thesis
    using d random_deletion_length[of "[ascii ''a'', ascii ''b'']" "const_draws 0" "1 / 2" 0]
    by (auto simp: const_draws_def)
qed

section \<open>The remainder loop\<close>

text \<open>What holds whenever the remainder loop returns: the counts only grow, and only
  at enabled positions.\<close>

lemma remainder_loop_invariant:
  assumes "remainder_loop rnd flags c r i = Some (c', j)"
  shows "length c' = length c \<and> i \<le> j
         \<and> (\<forall>p. c ! p \<le> c' ! p)
         \<and> (\<forall>p < length c. flags ! p = 0 \<longrightarrow> c' ! p = c ! p)"
proof -
  have "remainder_loop rnd flags c r i = Some y \<Longrightarrow>
          length (fst y) = length c \<and> i \<le> snd y
          \<and> (\<forall>p. c ! p \<le> fst y ! p)
          \<and> (\<forall>p < length c. flags ! p = 0 \<longrightarrow> fst y ! p = c ! p)" for y
  proof (induction rnd flags c r i y rule: remainder_loop.raw_induct[rotated, consumes 1, case_names 1])
    case (1 loop rnd flags c r i y)
    show ?case
    proof (cases "0 < r")
      case False
      with 1(2) show ?thesis by auto
    next
      case True
      show ?thesis
      proof (cases "flags ! (rnd i mod 4) \<noteq> 0")
        case hit: True
        let ?c = "c[rnd i mod 4 := c ! (rnd i mod 4) + 1]"
        from 1(2) True hit have "loop rnd flags ?c (r - 1) (Suc i) = Some y" by simp
        from 1(1)[OF this] have
          a: "length (fst y) = length ?c" and b: "Suc i \<le> snd y"
          and c: "\<forall>p. ?c ! p \<le> fst y ! p"
          and d: "\<forall>p < length ?c. flags ! p = 0 \<longrightarrow> fst y ! p = ?c ! p" by blast+
        have e: "c ! p \<le> ?c ! p" for p
          by (cases "rnd i mod 4 < length c") (auto simp: nth_list_update list_update_beyond)
        have "\<forall>p. c ! p \<le> fst y ! p"
        proof
          fix p from e[of p] c show "c ! p \<le> fst y ! p" by (meson order_trans)
        qed
        moreover have "\<forall>p < length c. flags ! p = 0 \<longrightarrow> fst y ! p = c ! p"
        proof (intro allI impI)
          fix p assume p: "p < length c" "flags ! p = 0"
          with hit have "p \<noteq> rnd i mod 4" by auto
          then have "?c ! p = c ! p" by simp
          with d p show "fst y ! p = c ! p" by simp
        qed
        ultimately show ?thesis using a b by simp
      next
        case miss: False
        from 1(2) True miss have "loop rnd flags c r (Suc i) = Some y" by simp
        from 1(1)[OF this] show ?thesis by auto
      qed
    qed
  qed
  from this[OF assms] show ?thesis by simp
qed

lemma sum_list_bump:
  "k < length xs \<Longrightarrow> sum_list (xs[k := xs ! k + 1]) = sum_list xs + (1::int)"
proof (induction xs arbitrary: k)
  case Nil
  then show ?case by simp
next
  case (Cons x xs)
  then show ?case by (cases k) auto
qed

lemma remainder_loop_sum:
  assumes "remainder_loop rnd flags c r i = Some (c', j)" "length c = 4"
  shows "sum_list c' = sum_list c + max 0 r"
proof -
  have "remainder_loop rnd flags c r i = Some y \<Longrightarrow> length c = 4 \<Longrightarrow>
          sum_list (fst y) = sum_list c + max 0 r" for y
  proof (induction rnd flags c r i y rule: remainder_loop.raw_induct[rotated, consumes 1, case_names 1])
    case (1 loop rnd flags c r i y)
    show ?case
    proof (cases "0 < r")
      case False
      with 1(2) show ?thesis by auto
    next
      case True
      show ?thesis
      proof (cases "flags ! (rnd i mod 4) \<noteq> 0")
        case hit: True
        let ?c = "c[rnd i mod 4 := c ! (rnd i mod 4) + 1]"
        from 1(2) True hit have "loop rnd flags ?c (r - 1) (Suc i) = Some y" by simp
        from 1(1)[OF this] 1(3) have "sum_list (fst y) = sum_list ?c + max 0 (r - 1)" by simp
        moreover have "sum_list ?c = sum_list c + 1"
          using 1(3) by (simp add: sum_list_bump)
        ultimately show ?thesis using True by simp
      next
        case miss: False
        from 1(2) True miss have "loop rnd flags c r (Suc i) = Some y" by simp
        from 1(1)[OF this] 1(3) show ?thesis by auto
      qed
    qed
  qed
  from this[OF assms] show ?thesis by simp
qed

lemma remainder_loop_never:
  assumes "0 < r" "\<forall>j\<ge>i. flags ! (rnd j mod 4) = 0"
  shows "remainder_loop rnd flags c r i = None"
proof -
  have "remainder_loop rnd flags c r i = Some y \<Longrightarrow>
          \<not> (0 < r \<and> (\<forall>j\<ge>i. flags ! (rnd j mod 4) = 0))" for y
  proof (induction rnd flags c r i y rule: remainder_loop.raw_induct[rotated, consumes 1, case_names 1])
    case (1 loop rnd flags c r i y)
    show ?case
    proof
      assume a: "0 < r \<and> (\<forall>j\<ge>i. flags ! (rnd j mod 4) = 0)"
      then have "flags ! (rnd i mod 4) = 0" by simp
      with 1(2) a have "loop rnd flags c r (Suc i) = Some y" by simp
      from 1(1)[OF this] a show False by auto
    qed
  qed
  with assms show ?thesis by (cases "remainder_loop rnd flags c r i") auto
qed

lemma upt_shift: "[i ..< i + Suc k] = i # [Suc i ..< Suc i + k]"
proof -
  have "i < i + Suc k" by simp
  then have "[i ..< i + Suc k] = i # [Suc i ..< i + Suc k]" by (rule upt_conv_Cons)
  then show ?thesis by simp
qed

lemma enabled_draws_Suc:
  "enabled_draws rnd flags i (Suc k) =
     (if flags ! (rnd i mod 4) \<noteq> 0 then 1 else 0) + enabled_draws rnd flags (Suc i) k"
  unfolding enabled_draws_def upt_shift by simp

lemma drawn_at_Suc:
  "drawn_at rnd pos i (Suc k) =
     (if rnd i mod 4 = pos then 1 else 0) + drawn_at rnd pos (Suc i) k"
  unfolding drawn_at_def upt_shift by simp

lemma remainder_loop_returns:
  "nat r \<le> enabled_draws rnd flags i k \<Longrightarrow>
     \<exists>c' j. remainder_loop rnd flags c r i = Some (c', j)"
proof (induction k arbitrary: c r i)
  case 0
  then have "r \<le> 0" by (simp add: enabled_draws_def)
  then show ?case by (subst remainder_loop.simps) simp
next
  case (Suc k)
  show ?case
  proof (cases "0 < r")
    case False
    then show ?thesis by (subst remainder_loop.simps) simp
  next
    case True
    show ?thesis
    proof (cases "flags ! (rnd i mod 4) \<noteq> 0")
      case hit: True
      with Suc.prems True have "nat (r - 1) \<le> enabled_draws rnd flags (Suc i) k"
        by (simp add: enabled_draws_Suc)
      from Suc.IH[OF this] show ?thesis
        using True hit by (subst remainder_loop.simps) simp
    next
      case miss: False
      with Suc.prems have "nat r \<le> enabled_draws rnd flags (Suc i) k"
        by (simp add: enabled_draws_Suc)
      from Suc.IH[OF this] show ?thesis
        using True miss by (subst remainder_loop.simps) simp
    qed
  qed
qed

lemma remainder_loop_all_enabled:
  assumes "length c = 4" "\<forall>p<4. flags ! p \<noteq> 0"
  shows "n = nat r \<Longrightarrow> remainder_loop rnd flags c r i =
           Some (map (\<lambda>pos. c ! pos + int (drawn_at rnd pos i n)) [0 ..< 4], i + n)"
  using assms(1)
proof (induction n arbitrary: c r i)
  case 0
  then have "r \<le> 0" by simp
  moreover have "map (\<lambda>pos. c ! pos) [0 ..< 4] = c"
    using 0(2) by (metis map_nth)
  ultimately show ?case
    by (subst remainder_loop.simps) (simp add: drawn_at_def)
next
  case (Suc n)
  then have r: "0 < r" "n = nat (r - 1)" by auto
  let ?q = "rnd i mod 4"
  let ?c = "c[?q := c ! ?q + 1]"
  have q: "?q < 4" by simp
  with assms(2) have hit: "flags ! ?q \<noteq> 0" by blast
  have len: "length ?c = 4" using Suc.prems(2) by simp
  have "remainder_loop rnd flags c r i = remainder_loop rnd flags ?c (r - 1) (Suc i)"
    using r hit by (subst remainder_loop.simps) simp
  also have "\<dots> = Some (map (\<lambda>pos. ?c ! pos + int (drawn_at rnd pos (Suc i) n)) [0 ..< 4],
                       Suc i + n)"
    by (rule Suc.IH[OF r(2) len])
  also have "map (\<lambda>pos. ?c ! pos + int (drawn_at rnd pos (Suc i) n)) [0 ..< 4]
             = map (\<lambda>pos. c ! pos + int (drawn_at rnd pos i (Suc n))) [0 ..< 4]"
  proof (rule map_cong[OF refl])
    fix pos assume "pos \<in> set [0 ..< 4]"
    then have "pos < length c" using Suc.prems(2) by simp
    then show "?c ! pos + int (drawn_at rnd pos (Suc i) n)
               = c ! pos + int (drawn_at rnd pos i (Suc n))"
      by (auto simp: drawn_at_Suc nth_list_update)
  qed
  finally show ?case by simp
qed

lemma py_int_nonneg: "-1 < x \<Longrightarrow> 0 \<le> py_int x"
  by (auto simp: py_int_def) linarith?

lemma py_mod_range: "0 \<le> py_mod x 4 \<and> py_mod x 4 < 4"
proof -
  have "of_int \<lfloor>x / 4\<rfloor> \<le> x / 4" "x / 4 < of_int \<lfloor>x / 4\<rfloor> + 1" by linarith+
  then show ?thesis by (simp add: py_mod_def field_simps)
qed

lemma py_mod_of_int: "py_mod (of_int a) 4 = of_int (a mod 4)"
proof -
  have "\<lfloor>(of_int a :: rat) / of_int 4\<rfloor> = a div 4" by (rule floor_divide_of_int_eq)
  then have "\<lfloor>(of_int a :: rat) / 4\<rfloor> = a div 4" by simp
  moreover have "a = a div 4 * 4 + a mod 4" by simp
  then have "(of_int a :: rat) = of_int (a div 4) * 4 + of_int (a mod 4)"
    by (metis of_int_add of_int_mult of_int_numeral)
  ultimately show ?thesis by (simp add: py_mod_def)
qed

lemma py_int_of_int_div: "0 \<le> a \<Longrightarrow> py_int (of_int a / 4) = a div 4"
proof -
  assume "0 \<le> a"
  have "\<lfloor>(of_int a :: rat) / of_int 4\<rfloor> = a div 4" by (rule floor_divide_of_int_eq)
  then have "\<lfloor>(of_int a :: rat) / 4\<rfloor> = a div 4" by simp
  with \<open>0 \<le> a\<close> show ?thesis by (simp add: py_int_def)
qed

lemma remainder_loop_draws:
  assumes "remainder_loop rnd flags c r i = Some (c', j)"
  shows "i \<le> j \<and> enabled_draws rnd flags i (j - i) = nat r"
proof -
  have "remainder_loop rnd flags c r i = Some y \<Longrightarrow>
          i \<le> snd y \<and> enabled_draws rnd flags i (snd y - i) = nat r" for y
  proof (induction rnd flags c r i y rule: remainder_loop.raw_induct[rotated, consumes 1, case_names 1])
    case (1 loop rnd flags c r i y)
    show ?case
    proof (cases "0 < r")
      case False
      with 1(2) show ?thesis by (auto simp: enabled_draws_def)
    next
      case True
      show ?thesis
      proof (cases "flags ! (rnd i mod 4) \<noteq> 0")
        case hit: True
        let ?c = "c[rnd i mod 4 := c ! (rnd i mod 4) + 1]"
        from 1(2) True hit have "loop rnd flags ?c (r - 1) (Suc i) = Some y" by simp
        from 1(1)[OF this] have
          a: "Suc i \<le> snd y" and b: "enabled_draws rnd flags (Suc i) (snd y - Suc i) = nat (r - 1)"
          by blast+
        from a have "snd y - i = Suc (snd y - Suc i)" by simp
        then have "enabled_draws rnd flags i (snd y - i) = 1 + nat (r - 1)"
          using hit b by (simp add: enabled_draws_Suc)
        with a True show ?thesis by simp
      next
        case miss: False
        from 1(2) True miss have "loop rnd flags c r (Suc i) = Some y" by simp
        from 1(1)[OF this] have
          a: "Suc i \<le> snd y" and b: "enabled_draws rnd flags (Suc i) (snd y - Suc i) = nat r"
          by blast+
        from a have "snd y - i = Suc (snd y - Suc i)" by simp
        then have "enabled_draws rnd flags i (snd y - i) = nat r"
          using miss b by (simp add: enabled_draws_Suc)
        with a show ?thesis by simp
      qed
    qed
  qed
  from this[OF assms] show ?thesis by simp
qed




section \<open>Allocation policy: what the counts are\<close>

lemma get_num_per_technique_four:
  assumes "4 \<le> length flags"
  shows "get_num_per_technique rnd num_aug flags i =
           map_option Inr
             (remainder_loop rnd flags
                (map (\<lambda>pos. if flags ! pos \<noteq> 0 then py_int (num_aug / 4) else 0) [0 ..< 4])
                \<lceil>py_mod num_aug 4\<rceil> i)"
proof -
  from assms have "flags \<noteq> []" by auto
  with assms show ?thesis by (simp add: get_num_per_technique_def Let_def cong: if_cong)
qed

text \<open>
  Claim C1 at a failing input.  With a target count of 8 and only the first operator
  enabled, \<open>get_num_per_technique\<close> returns \<open>[2, 0, 0, 0]\<close> whatever the generator
  does: the enabled operator gets \<open>int(8 / 4)\<close>, the shares of the three disabled
  operators are dropped, and the counts add up to 2, not to 8.
\<close>

theorem get_num_per_technique_loses_shares:
  "get_num_per_technique rnd 8 [1, 0, 0, 0] i = Some (Inr ([2, 0, 0, 0], i))
   \<and> sum_list [2, 0, 0, 0] \<noteq> (8 :: int)"
proof -
  have r: "\<lceil>py_mod 8 4\<rceil> = 0" by (simp add: py_mod_def)
  have b: "py_int 2 = 2" by (simp add: py_int_def)
  show ?thesis
    by (simp add: get_num_per_technique_four r b upt_rec remainder_loop.simps)
qed

text \<open>
  Claim C10.  With an empty flags list \<open>get_num_per_technique\<close> behaves as with four
  enabled flags: it always returns, after exactly as many draws as the remainder, and
  every position gets the base share \<open>int(num_aug / 4)\<close> plus one for each of these
  draws that picked it; no position is held at 0.
\<close>

theorem get_num_per_technique_empty_flags:
  "get_num_per_technique rnd num_aug [] i = get_num_per_technique rnd num_aug [1, 1, 1, 1] i
   \<and> get_num_per_technique rnd num_aug [] i =
       Some (Inr (map (\<lambda>pos. py_int (num_aug / 4)
                               + int (drawn_at rnd pos i (nat \<lceil>py_mod num_aug 4\<rceil>)))
                    [0 ..< 4],
                  i + nat \<lceil>py_mod num_aug 4\<rceil>))"
proof -
  let ?flags = "[1, 1, 1, 1] :: rat list"
  let ?base = "map (\<lambda>pos. if ?flags ! pos \<noteq> 0 then py_int (num_aug / 4) else 0) [0 ..< 4]"
  have e: "get_num_per_technique rnd num_aug [] i = get_num_per_technique rnd num_aug ?flags i"
    by (simp add: get_num_per_technique_def Let_def numeral_eq_Suc)
  have f: "\<forall>p<4. ?flags ! p \<noteq> 0"
    by (auto simp: nth_Cons split: nat.splits)
  have b: "?base = replicate 4 (py_int (num_aug / 4))"
    by (simp add: upt_rec numeral_eq_Suc)
  have "remainder_loop rnd ?flags ?base \<lceil>py_mod num_aug 4\<rceil> i =
          Some (map (\<lambda>pos. ?base ! pos + int (drawn_at rnd pos i (nat \<lceil>py_mod num_aug 4\<rceil>)))
                  [0 ..< 4], i + nat \<lceil>py_mod num_aug 4\<rceil>)"
    by (rule remainder_loop_all_enabled[OF _ f refl]) simp
  also have "map (\<lambda>pos. ?base ! pos + int (drawn_at rnd pos i (nat \<lceil>py_mod num_aug 4\<rceil>)))
                  [0 ..< 4]
             = map (\<lambda>pos. py_int (num_aug / 4)
                               + int (drawn_at rnd pos i (nat \<lceil>py_mod num_aug 4\<rceil>)))
                    [0 ..< 4]"
    by (rule map_cong[OF refl]) (simp add: b)
  finally have "get_num_per_technique rnd num_aug ?flags i =
       Some (Inr (map (\<lambda>pos. py_int (num_aug / 4)
                               + int (drawn_at rnd pos i (nat \<lceil>py_mod num_aug 4\<rceil>)))
                    [0 ..< 4],
                  i + nat \<lceil>py_mod num_aug 4\<rceil>))"
    by (simp add: get_num_per_technique_four)
  with e show ?thesis by simp
qed

section \<open>Allocation policy: signs and termination\<close>

text \<open>
  Claim C8, amended.  For every target count and every non-empty flags list, whenever
  \<open>get_num_per_technique\<close> returns counts there are four of them and every position
  whose flag is zero has count 0; and for every target count above \<open>-4\<close> (so for
  every valid one) none of the counts is negative.
\<close>

theorem get_num_per_technique_counts:
  assumes "flags \<noteq> []"
    and "get_num_per_technique rnd num_aug flags i = Some (Inr (counts, j))"
  shows "length counts = 4
         \<and> (\<forall>pos<4. flags ! pos = 0 \<longrightarrow> counts ! pos = 0)
         \<and> (- 4 < num_aug \<longrightarrow> (\<forall>pos<4. 0 \<le> counts ! pos))"
proof -
  let ?base = "map (\<lambda>pos. if flags ! pos \<noteq> 0 then py_int (num_aug / 4) else 0) [0 ..< 4]"
  have len: "4 \<le> length flags"
  proof (rule ccontr)
    assume "\<not> 4 \<le> length flags"
    with assms(1) have "get_num_per_technique rnd num_aug flags i = Some (Inl IndexError)"
      by (simp add: get_num_per_technique_def Let_def)
    with assms(2) show False by simp
  qed
  from assms(2) have "remainder_loop rnd flags ?base \<lceil>py_mod num_aug 4\<rceil> i = Some (counts, j)"
    by (auto simp: get_num_per_technique_four[OF len])
  from remainder_loop_invariant[OF this] have
    l: "length counts = length ?base"
    and g: "\<forall>p. ?base ! p \<le> counts ! p"
    and d: "\<forall>p < length ?base. flags ! p = 0 \<longrightarrow> counts ! p = ?base ! p" by blast+
  have b: "?base ! pos = (if flags ! pos \<noteq> 0 then py_int (num_aug / 4) else 0)"
    if "pos < 4" for pos
    using that by (simp del: upt_Suc)
  have z: "flags ! pos = 0 \<longrightarrow> counts ! pos = 0" if "pos < 4" for pos
    using d that b[OF that] by simp
  have n: "0 \<le> counts ! pos" if "pos < 4" "- 4 < num_aug" for pos
  proof -
    have "0 \<le> py_int (num_aug / 4)"
      using that(2) by (intro py_int_nonneg) simp
    with b[OF that(1)] have "0 \<le> ?base ! pos" by simp
    with g show ?thesis by (meson order_trans)
  qed
  from l z n show ?thesis by simp
qed

theorem get_num_per_technique_counts_witness:
  "get_num_per_technique (const_draws 2) 3 [0, 0, 3 / 10, 0] 0 = Some (Inr ([0, 0, 3, 0], 3))
   \<and> length [0, 0, 3, 0 :: int] = 4
   \<and> 0 \<le> [0, 0, 3, 0 :: int] ! 2
   \<and> [0, 0, 3, 0 :: int] ! 0 = 0"
proof -
  have r: "\<lceil>py_mod 3 4\<rceil> = 3" using py_mod_of_int[of 3] by simp
  have b: "py_int (3 / 4) = 0" using py_int_of_int_div[of 3] by simp
  have e: "get_num_per_technique (const_draws 2) 3 [0, 0, 3 / 10, 0] 0
             = Some (Inr ([0, 0, 3, 0], 3))"
    by (simp add: get_num_per_technique_four r b upt_rec remainder_loop.simps const_draws_def)
  have n: "- 4 < (3 :: rat)" and f: "[0, 0, 3 / 10, 0 :: rat] \<noteq> []" by simp_all
  from get_num_per_technique_counts[OF f e] n have
    "length [0, 0, 3, 0 :: int] = 4"
    and z: "\<forall>pos<4. [0, 0, 3 / 10, 0 :: rat] ! pos = 0 \<longrightarrow> [0, 0, 3, 0 :: int] ! pos = 0"
    and q: "\<forall>pos<4. 0 \<le> [0, 0, 3, 0 :: int] ! pos"
    by blast+
  moreover from q[rule_format, of 2] have "0 \<le> [0, 0, 3, 0 :: int] ! 2" by simp
  moreover from z[rule_format, of 0] have "[0, 0, 3, 0 :: int] ! 0 = 0" by simp
  ultimately show ?thesis using e by blast
qed

text \<open>
  Claim C8 as stated, for every target count, fails on a negative one: with
  \<open>num_aug = -8\<close> and four enabled flags each count is \<open>int(-8 / 4) = -2\<close>.
\<close>

theorem get_num_per_technique_negative:
  "get_num_per_technique (const_draws 0) (- 8) [1, 1, 1, 1] 0
     = Some (Inr ([- 2, - 2, - 2, - 2], 0))"
proof -
  have r: "\<lceil>py_mod (- 8) 4\<rceil> = 0" by (simp add: py_mod_def)
  have b: "py_int (- 2) = - 2" by (simp add: py_int_def)
  show ?thesis
    by (simp add: get_num_per_technique_four r b upt_rec remainder_loop.simps)
qed

text \<open>On which draws the function returns: exactly on those that pick an enabled
  position at least as many times as the remainder \<open>ceil(num_aug % 4)\<close>.\<close>

lemma get_num_per_technique_returns_iff:
  assumes "4 \<le> length flags"
  shows "(\<exists>res. get_num_per_technique rnd num_aug flags i = Some res)
         \<longleftrightarrow> (\<exists>k. nat \<lceil>py_mod num_aug 4\<rceil> \<le> enabled_draws rnd flags i k)"
proof -
  let ?base = "map (\<lambda>pos. if flags ! pos \<noteq> 0 then py_int (num_aug / 4) else 0) [0 ..< 4]"
  let ?r = "\<lceil>py_mod num_aug 4\<rceil>"
  have g: "get_num_per_technique rnd num_aug flags i
             = map_option Inr (remainder_loop rnd flags ?base ?r i)"
    by (rule get_num_per_technique_four[OF assms])
  show ?thesis
  proof
    assume "\<exists>res. get_num_per_technique rnd num_aug flags i = Some res"
    with g obtain c' j where l: "remainder_loop rnd flags ?base ?r i = Some (c', j)" by auto
    from remainder_loop_draws[OF l] have "nat ?r \<le> enabled_draws rnd flags i (j - i)" by simp
    then show "\<exists>k. nat ?r \<le> enabled_draws rnd flags i k" by blast
  next
    assume "\<exists>k. nat ?r \<le> enabled_draws rnd flags i k"
    then obtain k where "nat ?r \<le> enabled_draws rnd flags i k" by auto
    from remainder_loop_returns[OF this] obtain c' j where
      "remainder_loop rnd flags ?base ?r i = Some (c', j)" by blast
    with g show "\<exists>res. get_num_per_technique rnd num_aug flags i = Some res" by simp
  qed
qed



text \<open>The sum of the counts for an integer target count \<open>n \<ge> 0\<close>: each enabled
  position contributes \<open>n div 4\<close>, and the remainder \<open>n mod 4\<close> is added once.  It is
  \<open>n\<close> when all four positions are enabled or \<open>n < 4\<close>.\<close>

lemma get_num_per_technique_sum:
  assumes "0 \<le> n" "4 \<le> length flags"
    and "get_num_per_technique rnd (of_int n) flags i = Some (Inr (counts, j))"
  shows "sum_list counts
           = (\<Sum>pos\<leftarrow>[0 ..< 4]. if flags ! pos \<noteq> 0 then n div 4 else 0) + n mod 4"
proof -
  let ?base = "map (\<lambda>pos. if flags ! pos \<noteq> 0 then py_int (of_int n / 4) else 0) [0 ..< 4]"
  have r: "\<lceil>py_mod (of_int n) 4\<rceil> = n mod 4" by (simp add: py_mod_of_int)
  from assms(3) have "remainder_loop rnd flags ?base (n mod 4) i = Some (counts, j)"
    by (auto simp: get_num_per_technique_four[OF assms(2)] r)
  then have "sum_list counts = sum_list ?base + max 0 (n mod 4)"
    by (rule remainder_loop_sum) simp
  moreover have "?base = map (\<lambda>pos. if flags ! pos \<noteq> 0 then n div 4 else 0) [0 ..< 4]"
    unfolding py_int_of_int_div[OF assms(1)] ..
  ultimately show ?thesis by simp
qed

section \<open>The orchestrator\<close>

lemma isspace_ascii:
  "c < 128 \<Longrightarrow> isspace c \<longleftrightarrow> (9 \<le> c \<and> c < 14) \<or> (28 \<le> c \<and> c < 33)"
  unfolding isspace_def by (simp only: set_append set_upt) auto

lemma shuffle_from_mset:
  "k < length x \<Longrightarrow> mset (fst (shuffle_from rnd k x i)) = mset x"
proof (induction k arbitrary: x i)
  case 0
  then show ?case by simp
next
  case (Suc k)
  let ?j = "rnd i mod (Suc k + 1)"
  let ?x = "x[Suc k := x ! ?j, ?j := x ! Suc k]"
  have "?j < Suc k + 1" by (rule mod_less_divisor) simp
  with Suc.prems have j: "?j < length x" by linarith
  have "k < length ?x" using Suc.prems by simp
  then have "mset (fst (shuffle_from rnd k ?x (Suc i))) = mset ?x" by (rule Suc.IH)
  also have "mset ?x = mset x" using j Suc.prems by (rule mset_swap)
  finally show ?case by (simp add: Let_def)
qed

lemma shuffle_mset: "mset (fst (shuffle rnd x i)) = mset x"
proof (cases x)
  case Nil
  then show ?thesis by (simp add: shuffle_def)
next
  case (Cons a as)
  then have "length x - 1 < length x" by simp
  then show ?thesis unfolding shuffle_def by (rule shuffle_from_mset)
qed

lemma take_subset: "mset (take n xs) \<subseteq># mset xs"
  by (metis append_take_drop_id mset_append mset_subset_eq_add_left)

lemma kept_subset: "mset (map fst (filter P (zip xs ks))) \<subseteq># mset xs"
proof -
  have "mset (filter P (zip xs ks)) \<subseteq># mset (zip xs ks)" by simp
  then have "image_mset fst (mset (filter P (zip xs ks))) \<subseteq># image_mset fst (mset (zip xs ks))"
    by (rule image_mset_subseteq_mono)
  then have "mset (map fst (filter P (zip xs ks))) \<subseteq># mset (map fst (zip xs ks))" by simp
  also have "map fst (zip xs ks) = take (min (length xs) (length ks)) xs"
    by (rule map_fst_zip_take)
  also have "mset (take (min (length xs) (length ks)) xs) \<subseteq># mset xs"
    by (rule take_subset)
  finally show ?thesis .
qed

lemma eda_finish_head:
  assumes "eda_finish lx rnd sentence num_aug randomize augmented_sentences i = Inr out"
  shows "\<exists>rest. out = sentence # rest
           \<and> mset rest \<subseteq># mset (map (get_only_chars (ulower lx)) augmented_sentences)"
proof -
  let ?cleaned = "map (get_only_chars (ulower lx)) augmented_sentences"
  obtain shuffled j where
    s: "(if randomize then shuffle rnd ?cleaned i else (?cleaned, i)) = (shuffled, j)"
    by (cases "if randomize then shuffle rnd ?cleaned i else (?cleaned, i)") auto
  have m: "mset shuffled = mset ?cleaned"
  proof (cases randomize)
    case True
    with s have "shuffled = fst (shuffle rnd ?cleaned i)" by simp
    then show ?thesis by (simp add: shuffle_mset)
  next
    case False
    with s show ?thesis by simp
  qed
  from assms s have "out = sentence # take (nat (py_int num_aug)) shuffled
      \<or> out = sentence # map fst (filter (\<lambda>(aug_sentence, k).
                  uniform01 rnd k < num_aug / of_nat (length shuffled))
                  (zip shuffled [j ..< j + length shuffled]))
      \<or> out = sentence # shuffled"
    by (auto simp: eda_finish_def Let_def split: if_splits)
  then show ?thesis
    using take_subset[of "nat (py_int num_aug)" shuffled]
      kept_subset[of "\<lambda>(aug_sentence, k). uniform01 rnd k < num_aug / of_nat (length shuffled)"
        shuffled "[j ..< j + length shuffled]"] m
    by auto
qed

text \<open>
  Claim C3.  Whatever the sentence and the parameters, every list that \<open>eda\<close>
  returns starts with the original sentence, verbatim.  The entries after it come
  from the cleaned output of the operators only: the shuffle under \<open>randomize\<close> and
  the trimming act on these, never on the first entry.
\<close>

theorem eda_original_first:
  assumes "eda lx rnd sentence language num_aug alpha_sr alpha_ri alpha_rs alpha_rd
             randomize i = Some (Inr out)"
  shows "out \<noteq> [] \<and> out ! 0 = sentence
         \<and> (out = [sentence]
            \<or> (\<exists>counts i0 augmented_sentences i1.
                  get_num_per_technique rnd num_aug [alpha_sr, alpha_ri, alpha_rs, alpha_rd] i
                    = Some (Inr (counts, i0))
                  \<and> eda_operators lx rnd
                        (filter (\<lambda>word. word \<noteq> [])
                           (split 32 (get_only_chars (ulower lx) sentence)))
                        language counts alpha_sr alpha_ri alpha_rs alpha_rd i0
                      = Inr (augmented_sentences, i1)
                  \<and> mset (tl out)
                      \<subseteq># mset (map (get_only_chars (ulower lx)) augmented_sentences)))"
proof -
  let ?words = "filter (\<lambda>word. word \<noteq> []) (split 32 (get_only_chars (ulower lx) sentence))"
  show ?thesis
  proof (cases "length ?words = 0")
    case True
    with assms have "out = [sentence]" by (simp add: eda_def Let_def)
    then show ?thesis by simp
  next
    case False
    with assms obtain counts i0 where
      g: "get_num_per_technique rnd num_aug [alpha_sr, alpha_ri, alpha_rs, alpha_rd] i
            = Some (Inr (counts, i0))"
      by (auto simp: eda_def Let_def split: option.splits sum.splits)
    with assms False obtain augmented_sentences i1 where
      e: "eda_operators lx rnd ?words language counts alpha_sr alpha_ri alpha_rs alpha_rd i0
            = Inr (augmented_sentences, i1)"
      by (auto simp: eda_def Let_def split: sum.splits)
    with assms False g have
      "eda_finish lx rnd sentence num_aug randomize augmented_sentences i1 = Inr out"
      by (simp add: eda_def Let_def)
    from eda_finish_head[OF this] obtain rest where
      "out = sentence # rest"
      "mset rest \<subseteq># mset (map (get_only_chars (ulower lx)) augmented_sentences)" by blast
    with g e show ?thesis by auto
  qed
qed

lemma eda_all_zero:
  assumes "filter (\<lambda>word. word \<noteq> []) (split 32 (get_only_chars (ulower lx) sentence)) \<noteq> []"
    and "1 \<le> num_aug"
  shows "eda lx rnd sentence language num_aug 0 0 0 0 randomize i
           = (if py_mod num_aug 4 = 0 then Some (Inl ZeroDivisionError) else None)"
proof -
  let ?words = "filter (\<lambda>word. word \<noteq> []) (split 32 (get_only_chars (ulower lx) sentence))"
  let ?flags = "[0, 0, 0, 0] :: rat list"
  let ?base = "map (\<lambda>pos. if ?flags ! pos \<noteq> 0 then py_int (num_aug / 4) else 0) [0 ..< 4]"
  have g: "get_num_per_technique rnd num_aug ?flags i =
             map_option Inr (remainder_loop rnd ?flags ?base \<lceil>py_mod num_aug 4\<rceil> i)"
    by (rule get_num_per_technique_four) simp
  from assms(1) have w: "length ?words \<noteq> 0" by simp
  show ?thesis
  proof (cases "py_mod num_aug 4 = 0")
    case True
    then have "remainder_loop rnd ?flags ?base \<lceil>py_mod num_aug 4\<rceil> i = Some (?base, i)"
      by (subst remainder_loop.simps) simp
    with g have g': "get_num_per_technique rnd num_aug ?flags i = Some (Inr (?base, i))"
      by simp
    have o: "eda_operators lx rnd ?words language ?base 0 0 0 0 i = Inr ([], i)"
      by (simp add: eda_operators_def Let_def)
    have p: "\<not> py_int num_aug < 0" using assms(2) by (simp add: py_int_def)
    have f: "eda_finish lx rnd sentence num_aug randomize [] i = Inl ZeroDivisionError"
      using assms(2) p by (simp add: eda_finish_def shuffle_def)
    show ?thesis
      using True w by (simp add: eda_def Let_def g' o f del: upt_Suc)
  next
    case False
    with py_mod_range[of num_aug] have "0 < py_mod num_aug 4" by simp
    then have r: "0 < \<lceil>py_mod num_aug 4\<rceil>" by simp
    have z: "\<forall>j\<ge>i. ?flags ! (rnd j mod 4) = 0"
    proof (intro allI impI)
      fix j
      have "rnd j mod 4 < 4" by simp
      then show "?flags ! (rnd j mod 4) = 0"
        by (auto simp: nth_Cons split: nat.splits)
    qed
    have "remainder_loop rnd ?flags ?base \<lceil>py_mod num_aug 4\<rceil> i = None"
      using r z by (rule remainder_loop_never)
    with g have "get_num_per_technique rnd num_aug ?flags i = None" by simp
    with False w show ?thesis by (simp add: eda_def Let_def)
  qed
qed

text \<open>A concrete run: the sentence \<open>a b\<close>, one variant, swap only, shuffled.\<close>

lemma words_a_b:
  "filter (\<lambda>word. word \<noteq> []) (split 32 (get_only_chars ul (ascii ''a b'')))
     = [ascii ''a'', ascii ''b'']"
  by (simp add: get_only_chars_def ascii_def replace_def lower_def lower_cp_def
        valid_char_iff strip_def isspace_ascii)

lemma alloc_a_b:
  "get_num_per_technique step_draws 1 [0, 0, 1 / 2, 0] 0 = Some (Inr ([0, 0, 1, 0], 3))"
proof -
  have r: "\<lceil>py_mod 1 4\<rceil> = 1" using py_mod_of_int[of 1] by simp
  have b: "py_int (1 / 4) = 0" using py_int_of_int_div[of 1] by simp
  show ?thesis
    by (simp add: get_num_per_technique_four r b upt_rec remainder_loop.simps step_draws_def)
qed

lemma swap_a_b:
  "random_swap step_draws [ascii ''a'', ascii ''b''] 1 3 = Inr ([ascii ''b'', ascii ''a''], 5)"
proof -
  have len: "length [ascii ''a'', ascii ''b''] = 2" by simp
  have "swap_word step_draws [ascii ''a'', ascii ''b''] 3 = Inr ([ascii ''b'', ascii ''a''], 5)"
    unfolding swap_word_def len by (simp add: randint0_def step_draws_def)
  then show ?thesis by simp
qed

lemma ops_a_b:
  "eda_operators lx step_draws [ascii ''a'', ascii ''b''] language [0, 0, 1, 0]
      0 0 (1 / 2) 0 3 = Inr ([ascii ''b a''], 5)"
proof -
  have n: "nat (max 1 (py_int (1 / 2 * of_nat (length [ascii ''a'', ascii ''b''])))) = 1"
    by (simp add: py_int_def)
  have "augment_loop (random_swap step_draws [ascii ''a'', ascii ''b''] 1) 1 [] 3
          = Inr ([ascii ''b a''], 5)"
    using swap_a_b by (simp add: ascii_def)
  then show ?thesis
    unfolding eda_operators_def Let_def n by simp
qed

lemma finish_a_b:
  "eda_finish lx step_draws (ascii ''a b'') 1 True [ascii ''b a''] 5
     = Inr [ascii ''a b'', ascii ''b a'']"
proof -
  have c: "get_only_chars ul (ascii ''b a'') = ascii ''b a''" for ul
    by (simp add: get_only_chars_def ascii_def replace_def lower_def lower_cp_def
          valid_char_iff strip_def isspace_ascii)
  have p: "py_int 1 = 1" by (simp add: py_int_def)
  have u: "uniform01 step_draws 5 < 1" by (simp add: uniform01_def step_draws_def)
  show ?thesis
    by (simp add: eda_finish_def c p u shuffle_def)
qed

lemma eda_a_b:
  "eda lx step_draws (ascii ''a b'') language 1 0 0 (1 / 2) 0 True 0
     = Some (Inr [ascii ''a b'', ascii ''b a''])"
  by (simp add: eda_def Let_def words_a_b alloc_a_b ops_a_b finish_a_b)

text \<open>Joining lowercase words gives a string in normal form whose tokens are
  these words.\<close>

lemma split_nosep: "sep \<notin> set w \<Longrightarrow> split sep w = [w]"
  by (induction w) auto

lemma split_app: "sep \<notin> set w \<Longrightarrow> split sep (w @ sep # r) = w # split sep r"
  by (induction w) auto

lemma split_join:
  "ws \<noteq> [] \<Longrightarrow> \<forall>w\<in>set ws. sep \<notin> set w \<Longrightarrow> split sep (join sep ws) = ws"
  by (induction sep ws rule: join.induct) (auto simp: split_nosep split_app)

lemma is_word_no_space: "is_word w \<Longrightarrow> 32 \<notin> set w"
  by (auto simp: is_word_def list_all_iff)

lemma no_double_Cons: "c \<noteq> 32 \<Longrightarrow> no_double (c # s) = no_double s"
  by (cases s) auto

lemma no_double_space_Cons: "s \<noteq> [] \<Longrightarrow> hd s \<noteq> 32 \<Longrightarrow> no_double (32 # s) = no_double s"
  by (cases s) auto

lemma no_double_word_append: "32 \<notin> set w \<Longrightarrow> no_double (w @ s) = no_double s"
  by (induction w) (auto simp: no_double_Cons)

lemma join_words_shape:
  "ws \<noteq> [] \<Longrightarrow> \<forall>w\<in>set ws. is_word w \<Longrightarrow>
     join 32 ws \<noteq> [] \<and> is_word [hd (join 32 ws)] \<and> is_word [last (join 32 ws)]
     \<and> no_double (join 32 ws) \<and> set (join 32 ws) \<subseteq> set VALID_CHARS"
proof (induction "32 :: nat" ws rule: join.induct)
  case 1
  then show ?case by simp
next
  case (2 w)
  then have w: "is_word w" by simp
  then have "no_double w" using no_double_word_append[of w "[]"] is_word_no_space by simp
  moreover from w have "set w \<subseteq> set VALID_CHARS"
    by (auto simp: is_word_def list_all_iff valid_char_iff)
  moreover from w have "is_word [hd w]" "is_word [last w]"
    by (auto simp: is_word_def list_all_iff)
  ultimately show ?case using w by (simp add: is_word_def)
next
  case (3 w v ws)
  let ?r = "join 32 (v # ws)"
  from 3 have w: "is_word w" and
    r: "?r \<noteq> []" "is_word [hd ?r]" "is_word [last ?r]" "no_double ?r"
       "set ?r \<subseteq> set VALID_CHARS" by auto
  from r(2) have "hd ?r \<noteq> 32" by (simp add: is_word_def)
  with r have "no_double (w @ 32 # ?r)"
    using w by (simp add: no_double_word_append is_word_no_space no_double_space_Cons)
  moreover from w r(5) have "set (w @ 32 # ?r) \<subseteq> set VALID_CHARS"
    by (auto simp: is_word_def list_all_iff valid_char_iff)
  moreover from w have "is_word [hd (w @ 32 # ?r)]"
    by (auto simp: is_word_def list_all_iff)
  moreover from r have "is_word [last (w @ 32 # ?r)]" by simp
  ultimately show ?case by simp
qed

lemma strip_unspaced:
  assumes "s \<noteq> []" "\<not> isspace (hd s)" "\<not> isspace (last s)"
  shows "strip s = s"
proof -
  from assms(1,2) have a: "dropWhile isspace s = s" by (cases s) auto
  from assms(1,3) have "\<not> isspace (hd (rev s))" by (simp add: hd_rev)
  with assms(1) have "dropWhile isspace (rev s) = rev s" by (cases "rev s") auto
  with a show ?thesis by (simp add: strip_def)
qed

lemma is_word_not_space: "is_word [c] \<Longrightarrow> \<not> isspace c"
  by (simp add: is_word_def isspace_ascii)

lemma normal_join:
  assumes "ws \<noteq> []" "\<forall>w\<in>set ws. is_word w"
  shows "normal (join 32 ws)"
proof -
  from join_words_shape[OF assms] have
    a: "join 32 ws \<noteq> []" and b: "is_word [hd (join 32 ws)]" and c: "is_word [last (join 32 ws)]"
    and d: "no_double (join 32 ws)" and e: "set (join 32 ws) \<subseteq> set VALID_CHARS" by blast+
  have "strip (join 32 ws) = join 32 ws"
    using a b c by (intro strip_unspaced is_word_not_space)
  with d e show ?thesis by (simp add: normal_def)
qed

lemma tokens_join:
  assumes "ws \<noteq> []" "\<forall>w\<in>set ws. is_word w"
  shows "get_only_chars ul (join 32 ws) = join 32 ws" and "tokens ul (join 32 ws) = ws"
proof -
  show g: "get_only_chars ul (join 32 ws) = join 32 ws"
    by (rule get_only_chars_normal) (rule normal_join[OF assms])
  have "split 32 (join 32 ws) = ws"
    using assms by (intro split_join) (auto dest: is_word_no_space)
  moreover have "filter (\<lambda>word. word \<noteq> []) ws = ws"
    using assms(2) by (auto simp: filter_id_conv is_word_def)
  ultimately show "tokens ul (join 32 ws) = ws" by (simp add: tokens_def g)
qed

theorem eda_original_first_witness:
  "eda empty_lexicon step_draws (ascii ''a b'') (ascii ''eng'') 1 0 0 (1 / 2) 0 True 0
     = Some (Inr [ascii ''a b'', ascii ''b a''])
   \<and> [ascii ''a b'', ascii ''b a''] ! 0 = ascii ''a b''"
proof -
  have e: "eda empty_lexicon step_draws (ascii ''a b'') (ascii ''eng'') 1 0 0 (1 / 2) 0 True 0
             = Some (Inr [ascii ''a b'', ascii ''b a''])"
    by (rule eda_a_b)
  from eda_original_first[OF e] e show ?thesis by simp
qed

text \<open>
  Claim C2, amended.  For every sentence with at least one token after normalization
  and every \<open>num_aug \<ge> 1\<close>, \<open>eda\<close> with all four alphas equal to zero never returns
  a list; when \<open>num_aug\<close> is not a multiple of 4 it does not return at all, because
  the remainder loop of \<open>get_num_per_technique\<close> finds no enabled operator.
\<close>

theorem eda_all_alphas_zero:
  assumes "tokens (ulower lx) sentence \<noteq> []" and "1 \<le> num_aug"
  shows "(\<forall>out. eda lx rnd sentence language num_aug 0 0 0 0 randomize i \<noteq> Some (Inr out))
         \<and> (py_mod num_aug 4 \<noteq> 0
              \<longrightarrow> eda lx rnd sentence language num_aug 0 0 0 0 randomize i = None)"
proof -
  from assms(1) have
    "filter (\<lambda>word. word \<noteq> []) (split 32 (get_only_chars (ulower lx) sentence)) \<noteq> []"
    by (simp add: tokens_def)
  from eda_all_zero[OF this assms(2)] show ?thesis by simp
qed

lemma words_a: "tokens ul (ascii ''a'') = [ascii ''a'']"
  by (simp add: tokens_def get_only_chars_def ascii_def replace_def lower_def lower_cp_def
        valid_char_iff strip_def isspace_ascii)

theorem eda_all_alphas_zero_witness:
  "tokens (ulower empty_lexicon) (ascii ''a'') = [ascii ''a'']
   \<and> eda empty_lexicon step_draws (ascii ''a'') (ascii ''eng'') 5 0 0 0 0 False 0 = None"
proof -
  have t: "tokens (ulower empty_lexicon) (ascii ''a'') \<noteq> []" by (simp add: words_a)
  have n: "(1 :: rat) \<le> 5" by simp
  have m: "py_mod 5 4 \<noteq> 0" using py_mod_of_int[of 5] by simp
  from eda_all_alphas_zero[OF t n] m words_a show ?thesis by blast
qed

text \<open>
  Claim C2 as stated fails: on the sentence \<open>a\<close> with \<open>num_aug = 1\<close> and all alphas
  zero, \<open>eda\<close> does not return the one-element list; it does not return.
\<close>

theorem eda_all_alphas_zero_diverges:
  "eda empty_lexicon (const_draws 0) (ascii ''a'') (ascii ''eng'') 1 0 0 0 0 False 0 = None"
proof -
  have t: "filter (\<lambda>word. word \<noteq> [])
             (split 32 (get_only_chars (ulower empty_lexicon) (ascii ''a''))) \<noteq> []"
    using words_a[of "ulower empty_lexicon"] by (simp add: tokens_def)
  have m: "py_mod 1 4 \<noteq> 0" using py_mod_of_int[of 1] by simp
  from eda_all_zero[OF t, of 1] m show ?thesis by simp
qed

section \<open>The swap-only scenario\<close>

lemma uniform01_less_1: "uniform01 rnd k < 1"
proof -
  have "rnd k mod 2 ^ 53 < (2 ^ 53 :: nat)" by simp
  then have "(of_nat (rnd k mod 2 ^ 53) :: rat) < of_nat (2 ^ 53)" by (simp only: of_nat_less_iff)
  then show ?thesis by (simp add: uniform01_def)
qed

lemma kept_all:
  assumes "\<And>k. P k"
  shows "map fst (filter (\<lambda>(a, k). P k) (zip xs [j ..< j + length xs])) = xs"
proof -
  have "filter (\<lambda>(a, k). P k) (zip xs [j ..< j + length xs]) = zip xs [j ..< j + length xs]"
    using assms by (auto simp: filter_id_conv)
  then show ?thesis by simp
qed

lemma augment_loop_swap:
  assumes "words \<noteq> []"
  shows "\<exists>vs j. augment_loop (random_swap rnd words n) cnt acc i = Inr (acc @ vs, j)
           \<and> length vs = cnt
           \<and> (\<forall>v\<in>set vs. \<exists>ws. v = join 32 ws \<and> mset ws = mset words)"
proof (induction cnt arbitrary: acc i)
  case 0
  then show ?case by simp
next
  case (Suc cnt)
  from random_swap_ok[OF assms] obtain ws j where
    s: "random_swap rnd words n i = Inr (ws, j)" and m: "mset ws = mset words" by blast
  from Suc.IH[of "acc @ [join 32 ws]" j] obtain vs j' where
    a: "augment_loop (random_swap rnd words n) cnt (acc @ [join 32 ws]) j
          = Inr ((acc @ [join 32 ws]) @ vs, j')"
    and l: "length vs = cnt"
    and p: "\<forall>v\<in>set vs. \<exists>ws. v = join 32 ws \<and> mset ws = mset words" by blast
  have "augment_loop (random_swap rnd words n) (Suc cnt) acc i
          = Inr (acc @ (join 32 ws # vs), j')"
    using s a by simp
  moreover have "length (join 32 ws # vs) = Suc cnt" using l by simp
  moreover have "\<forall>v\<in>set (join 32 ws # vs). \<exists>ws. v = join 32 ws \<and> mset ws = mset words"
    using m p by auto
  ultimately show ?case by blast
qed

lemma tokens_fox: "tokens ul fox = fox_words"
  by (simp add: fox_def fox_words_def tokens_def get_only_chars_def ascii_def replace_def
        lower_def lower_cp_def valid_char_iff strip_def isspace_ascii)

lemma fox_words_are_words: "\<forall>w\<in>set fox_words. is_word w"
  by (simp add: fox_words_def is_word_def ascii_def)

lemma alloc_fox:
  assumes "get_num_per_technique rnd 2 [0, 0, 3 / 10, 0] i = Some (Inr (counts, i0))"
  shows "counts = [0, 0, 2, 0]"
proof -
  let ?flags = "[0, 0, 3 / 10, 0] :: rat list"
  have r: "\<lceil>py_mod 2 4\<rceil> = 2" using py_mod_of_int[of 2] by simp
  have "py_int (of_int 2 / 4) = 2 div 4" by (rule py_int_of_int_div) simp
  then have b: "py_int (2 / 4) = 0" by simp
  have base: "map (\<lambda>pos. if ?flags ! pos \<noteq> 0 then py_int (2 / 4) else 0) [0 ..< 4]
                = [0, 0, 0, 0]"
    unfolding b by (simp add: upt_rec)
  have "get_num_per_technique rnd 2 ?flags i =
          map_option Inr (remainder_loop rnd ?flags
            (map (\<lambda>pos. if ?flags ! pos \<noteq> 0 then py_int (2 / 4) else 0) [0 ..< 4])
            \<lceil>py_mod 2 4\<rceil> i)"
    by (rule get_num_per_technique_four) simp
  then have "get_num_per_technique rnd 2 ?flags i =
          map_option Inr (remainder_loop rnd ?flags [0, 0, 0, 0] 2 i)"
    unfolding base r .
  with assms have l: "remainder_loop rnd ?flags [0, 0, 0, 0] 2 i = Some (counts, i0)"
    by auto
  from remainder_loop_invariant[OF l] have
    len: "length counts = 4"
    and d: "\<forall>p < 4. ?flags ! p = 0 \<longrightarrow> counts ! p = [0, 0, 0, 0 :: int] ! p" by simp_all
  from remainder_loop_sum[OF l] have s: "sum_list counts = 2" by simp
  from len obtain a b c d' where c: "counts = [a, b, c, d']"
    by (auto simp: numeral_eq_Suc length_Suc_conv)
  from d[rule_format, of 0] d[rule_format, of 1] d[rule_format, of 3] c
  have "a = 0" "b = 0" "d' = 0" by simp_all
  with s c show ?thesis by simp
qed

lemma alloc_fox_returns:
  assumes "2 \<le> enabled_draws rnd [0, 0, 3 / 10, 0] i k"
  shows "\<exists>counts i0. get_num_per_technique rnd 2 [0, 0, 3 / 10, 0] i = Some (Inr (counts, i0))"
proof -
  let ?flags = "[0, 0, 3 / 10, 0] :: rat list"
  have r: "\<lceil>py_mod 2 4\<rceil> = 2" using py_mod_of_int[of 2] by simp
  from assms have "nat \<lceil>py_mod 2 4\<rceil> \<le> enabled_draws rnd ?flags i k" by (simp add: r)
  from remainder_loop_returns[OF this] obtain c' j where
    "remainder_loop rnd ?flags
       (map (\<lambda>pos. if ?flags ! pos \<noteq> 0 then py_int (2 / 4) else 0) [0 ..< 4])
       \<lceil>py_mod 2 4\<rceil> i = Some (c', j)" by blast
  moreover have "get_num_per_technique rnd 2 ?flags i =
          map_option Inr (remainder_loop rnd ?flags
            (map (\<lambda>pos. if ?flags ! pos \<noteq> 0 then py_int (2 / 4) else 0) [0 ..< 4])
            \<lceil>py_mod 2 4\<rceil> i)"
    by (rule get_num_per_technique_four) simp
  ultimately show ?thesis by simp
qed

lemma ops_fox:
  "\<exists>ws1 ws2 j. eda_operators lx rnd fox_words language [0, 0, 2, 0] 0 0 (3 / 10) 0 i0
                  = Inr ([join 32 ws1, join 32 ws2], j)
               \<and> mset ws1 = mset fox_words \<and> mset ws2 = mset fox_words"
proof -
  have "\<lfloor>(of_int 3 :: rat) / of_int 2\<rfloor> = 3 div 2" by (rule floor_divide_of_int_eq)
  then have f: "\<lfloor>3 / 2 :: rat\<rfloor> = 1" by simp
  have n: "nat (max 1 (py_int (3 / 10 * of_nat (length fox_words)))) = 1"
    by (simp add: fox_words_def py_int_def f)
  have ne: "fox_words \<noteq> []" by (simp add: fox_words_def)
  from augment_loop_swap[OF ne, of rnd 1 2 "[]" i0] obtain vs j where
    a: "augment_loop (random_swap rnd fox_words 1) 2 [] i0 = Inr (vs, j)"
    and l: "length vs = 2"
    and p: "\<forall>v\<in>set vs. \<exists>ws. v = join 32 ws \<and> mset ws = mset fox_words" by auto
  from l obtain v1 v2 where vs: "vs = [v1, v2]"
    by (auto simp: numeral_eq_Suc length_Suc_conv)
  with p obtain ws1 ws2 where
    w: "v1 = join 32 ws1" "mset ws1 = mset fox_words"
       "v2 = join 32 ws2" "mset ws2 = mset fox_words" by auto
  have "eda_operators lx rnd fox_words language [0, 0, 2, 0] 0 0 (3 / 10) 0 i0
          = Inr (vs, j)"
    unfolding eda_operators_def Let_def n using a by simp
  with vs w show ?thesis by auto
qed

lemma finish_fox:
  assumes "mset ws1 = mset fox_words" "mset ws2 = mset fox_words"
  shows "\<exists>v1 v2. eda_finish lx rnd fox 2 randomize [join 32 ws1, join 32 ws2] j
                    = Inr [fox, v1, v2]
                 \<and> mset (tokens ul v1) = mset fox_words
                 \<and> mset (tokens ul v2) = mset fox_words"
proof -
  have ww: "ws \<noteq> [] \<and> (\<forall>w\<in>set ws. is_word w)" if "mset ws = mset fox_words" for ws
  proof -
    from that have "set ws = set fox_words" by (rule mset_eq_setD)
    moreover have "fox_words \<noteq> []" by (simp add: fox_words_def)
    ultimately show ?thesis using fox_words_are_words by auto
  qed
  have c: "get_only_chars ul' (join 32 ws) = join 32 ws"
    and t: "tokens ul' (join 32 ws) = ws" if "mset ws = mset fox_words" for ws ul'
    using tokens_join ww[OF that] by blast+
  let ?cleaned = "[join 32 ws1, join 32 ws2]"
  have cl: "map (get_only_chars (ulower lx)) ?cleaned = ?cleaned"
    using c assms by simp
  obtain shuffled k where
    s: "(if randomize then shuffle rnd ?cleaned j else (?cleaned, j)) = (shuffled, k)"
    by (cases "if randomize then shuffle rnd ?cleaned j else (?cleaned, j)") auto
  have m: "mset shuffled = mset ?cleaned"
  proof (cases randomize)
    case True
    with s have "shuffled = fst (shuffle rnd ?cleaned j)" by simp
    then show ?thesis by (simp only: shuffle_mset)
  next
    case False
    with s show ?thesis by simp
  qed
  then have "length shuffled = 2" using mset_eq_length by fastforce
  then obtain v1 v2 where sh: "shuffled = [v1, v2]"
    by (auto simp: numeral_eq_Suc length_Suc_conv)
  from m sh have "set [v1, v2] = set ?cleaned" using mset_eq_setD by blast
  then have v: "v1 \<in> {join 32 ws1, join 32 ws2}" "v2 \<in> {join 32 ws1, join 32 ws2}" by auto
  have tk: "mset (tokens ul v1) = mset fox_words" "mset (tokens ul v2) = mset fox_words"
    using v t assms by auto
  have p: "py_int 2 = 2" by (simp add: py_int_def)
  have keep: "map fst (filter (\<lambda>(aug_sentence, k'). uniform01 rnd k' < 1)
                         (zip shuffled [k ..< k + length shuffled])) = shuffled"
    by (rule kept_all) (rule uniform01_less_1)
  have "eda_finish lx rnd fox 2 randomize ?cleaned j = Inr ([fox] @ shuffled)"
    unfolding eda_finish_def cl Let_def s using keep sh by (simp add: p)
  with sh tk show ?thesis by simp
qed

lemma eda_fox_unfold:
  assumes "get_num_per_technique rnd 2 [0, 0, 3 / 10, 0] i = Some (Inr (counts, i0))"
  shows "\<exists>v1 v2. eda lx rnd fox language 2 0 0 (3 / 10) 0 randomize i = Some (Inr [fox, v1, v2])
                 \<and> mset (tokens (ulower lx) v1) = mset fox_words
                 \<and> mset (tokens (ulower lx) v2) = mset fox_words"
proof -
  have c: "counts = [0, 0, 2, 0]" using assms by (rule alloc_fox)
  have w: "filter (\<lambda>word. word \<noteq> []) (split 32 (get_only_chars (ulower lx) fox)) = fox_words"
    using tokens_fox[of "ulower lx"] by (simp add: tokens_def)
  have ne: "length fox_words \<noteq> 0" by (simp add: fox_words_def)
  from ops_fox[of lx rnd language i0] obtain ws1 ws2 j where
    o: "eda_operators lx rnd fox_words language [0, 0, 2, 0] 0 0 (3 / 10) 0 i0
          = Inr ([join 32 ws1, join 32 ws2], j)"
    and m: "mset ws1 = mset fox_words" "mset ws2 = mset fox_words" by blast
  from finish_fox[OF m, of lx rnd randomize j "ulower lx"] obtain v1 v2 where
    f: "eda_finish lx rnd fox 2 randomize [join 32 ws1, join 32 ws2] j = Inr [fox, v1, v2]"
    and t: "mset (tokens (ulower lx) v1) = mset fox_words"
           "mset (tokens (ulower lx) v2) = mset fox_words" by blast
  have "eda lx rnd fox language 2 0 0 (3 / 10) 0 randomize i = Some (Inr [fox, v1, v2])"
    unfolding eda_def Let_def w using ne assms c o f by simp
  with t show ?thesis by blast
qed

text \<open>
  Claim C6.  On the sentence \<open>The quick brown fox jumps\<close> with \<open>alpha_rs = 0.3\<close>, the
  other alphas 0 and a target count of 2, every result of \<open>eda\<close> is a list of exactly
  three strings: the original, whose tokens are the five words, and two variants whose
  tokens are permutations of these five words.  \<open>eda\<close> does return as soon as the
  generator draws the swap position twice in the allocation loop.
\<close>

theorem eda_swap_scenario:
  "tokens (ulower lx) fox = fox_words
   \<and> (2 \<le> enabled_draws rnd [0, 0, 3 / 10, 0] i k
        \<longrightarrow> eda lx rnd fox language 2 0 0 (3 / 10) 0 randomize i \<noteq> None)
   \<and> (\<forall>res. eda lx rnd fox language 2 0 0 (3 / 10) 0 randomize i = Some res
        \<longrightarrow> (\<exists>v1 v2. res = Inr [fox, v1, v2]
                \<and> mset (tokens (ulower lx) v1) = mset fox_words
                \<and> mset (tokens (ulower lx) v2) = mset fox_words))"
proof (intro conjI impI allI)
  show "tokens (ulower lx) fox = fox_words" by (rule tokens_fox)
next
  assume "2 \<le> enabled_draws rnd [0, 0, 3 / 10, 0] i k"
  from alloc_fox_returns[OF this] obtain counts i0 where
    "get_num_per_technique rnd 2 [0, 0, 3 / 10, 0] i = Some (Inr (counts, i0))" by blast
  from eda_fox_unfold[OF this, of lx language randomize]
  show "eda lx rnd fox language 2 0 0 (3 / 10) 0 randomize i \<noteq> None" by auto
next
  fix res
  assume r: "eda lx rnd fox language 2 0 0 (3 / 10) 0 randomize i = Some res"
  have w: "filter (\<lambda>word. word \<noteq> []) (split 32 (get_only_chars (ulower lx) fox)) = fox_words"
    using tokens_fox[of "ulower lx"] by (simp add: tokens_def)
  have ne: "length fox_words \<noteq> 0" by (simp add: fox_words_def)
  have nn: "get_num_per_technique rnd 2 [0, 0, 3 / 10, 0] i \<noteq> None"
    using r ne unfolding eda_def Let_def w by (auto split: option.splits)
  have len: "4 \<le> length [0, 0, 3 / 10, 0 :: rat]" by simp
  from get_num_per_technique_four[OF len, of rnd 2 i] obtain y where
    y: "get_num_per_technique rnd 2 [0, 0, 3 / 10, 0] i = map_option Inr y" by blast
  with nn obtain counts i0 where "y = Some (counts, i0)" by (cases y) auto
  with y have "get_num_per_technique rnd 2 [0, 0, 3 / 10, 0] i = Some (Inr (counts, i0))"
    by simp
  from eda_fox_unfold[OF this, of lx language randomize] r
  show "\<exists>v1 v2. res = Inr [fox, v1, v2]
                \<and> mset (tokens (ulower lx) v1) = mset fox_words
                \<and> mset (tokens (ulower lx) v2) = mset fox_words" by auto
qed

theorem eda_swap_scenario_witness:
  "\<exists>v1 v2. eda empty_lexicon (const_draws 2) fox (ascii ''eng'') 2 0 0 (3 / 10) 0 False 0
              = Some (Inr [fox, v1, v2])
           \<and> mset (tokens (ulower empty_lexicon) v1) = mset fox_words
           \<and> mset (tokens (ulower empty_lexicon) v2) = mset fox_words"
proof -
  have h: "2 \<le> enabled_draws (const_draws 2) [0, 0, 3 / 10, 0] 0 2"
    by (simp add: enabled_draws_def const_draws_def upt_rec)
  from eda_swap_scenario[of empty_lexicon "const_draws 2" 0 2 "ascii ''eng''" False] h
  show ?thesis by (cases "eda empty_lexicon (const_draws 2) fox (ascii ''eng'') 2 0 0 (3 / 10) 0 False 0") auto
qed

end
